theory Spec2Isabelle
  imports Complex_Main "HOL-Library.Monad_Syntax"
begin

section \<open>The multilevel SDC + AMR controller (RNS/src/SDCAmr.cpp)\<close>

text \<open>
  The controller \<open>SDCAmr\<close> extends BoxLib's \<open>Amr\<close> and drives the SDC step
  library. BoxLib, the physics level \<open>RNS\<close> and the step library are not part of
  the file: their operations are the fields of a record \<open>provider\<close> that every
  function of the controller takes as its first argument. The embedding follows the
  optimised build (\<open>NDEBUG\<close>), where \<open>BL_ASSERT\<close> and the NaN poisoning are compiled
  out, with \<open>verbose = 0\<close>: console output is not modelled.

  A function that dereferences a pointer or indexes an array returns an \<open>option\<close>;
  \<open>None\<close> is the undefined behaviour of a null or out-of-range access. Times are
  \<open>real\<close>: the controller only passes them on, and the time stamps that
  \<open>setTimeLevel\<close> writes are not represented. Of the two transfer operators only
  \<open>mlsdc_amr_restrict\<close> is embedded.
\<close>

subsection \<open>Checked array access\<close>

definition lookup :: "'a list \<Rightarrow> int \<Rightarrow> 'a option" where
  "lookup xs i = (if 0 \<le> i \<and> i < int (length xs) then Some (xs ! nat i) else None)"

definition store :: "'a list \<Rightarrow> int \<Rightarrow> 'a \<Rightarrow> 'a list option" where
  "store xs i v = (if 0 \<le> i \<and> i < int (length xs) then Some (xs[nat i := v]) else None)"

text \<open>A \<open>for\<close> loop whose bounds the body does not change.\<close>

fun forM :: "'a list \<Rightarrow> ('a \<Rightarrow> 's \<Rightarrow> 's option) \<Rightarrow> 's \<Rightarrow> 's option" where
  "forM [] f s = Some s"
| "forM (x # xs) f s = (case f x s of None \<Rightarrow> None | Some s' \<Rightarrow> forM xs f s')"

subsection \<open>Fields (BoxLib's MultiFab)\<close>

text \<open>
  A \<open>MultiFab\<close> has \<open>nComp\<close> components and \<open>nGrow\<close> layers of ghost cells around
  its valid region. \<open>dat U c g\<close> is the data of component \<open>c\<close> at ghost depth \<open>g\<close>:
  depth \<open>0\<close> is the valid region, depth \<open>g \<ge> 1\<close> the \<open>g\<close>-th ghost layer. The
  layout of the boxes is the level's and is not represented; the cell values are of
  an arbitrary type \<open>'v\<close> (the code copies them, it never computes with them).
\<close>

record 'v multifab =
  nComp :: nat
  nGrow :: nat
  dat :: "nat \<Rightarrow> nat \<Rightarrow> 'v"

text \<open>
  \<open>MultiFab::Copy (dst, src, srccomp, dstcomp, numcomp, nghost)\<close> of BoxLib: copies
  \<open>numcomp\<close> components, on the valid region and \<open>nghost\<close> ghost layers. Either
  field having fewer ghost layers or components than asked for is an out-of-range
  access.
\<close>

definition MultiFab_Copy ::
  "'v multifab \<Rightarrow> 'v multifab \<Rightarrow> nat \<Rightarrow> nat \<Rightarrow> nat \<Rightarrow> nat \<Rightarrow> 'v multifab option" where
  "MultiFab_Copy dst src srccomp dstcomp numcomp nghost =
     (if nghost \<le> nGrow dst \<and> nghost \<le> nGrow src
         \<and> srccomp + numcomp \<le> nComp src \<and> dstcomp + numcomp \<le> nComp dst
      then Some (dst\<lparr>dat := (\<lambda>c g.
             if dstcomp \<le> c \<and> c < dstcomp + numcomp \<and> g \<le> nghost
             then dat src (c - dstcomp + srccomp) g else dat dst c g)\<rparr>)
      else None)"

text \<open>Two fields hold the same data on the components and ghost layers of the first.\<close>

definition agree_on :: "'v multifab \<Rightarrow> 'v multifab \<Rightarrow> bool" where
  "agree_on U V = (\<forall>c < nComp U. \<forall>g \<le> nGrow U. dat U c g = dat V c g)"

subsection \<open>The mesh hierarchy (BoxLib's Amr and AmrLevel)\<close>

text \<open>The fill modes of \<open>RNS::fill_boundary\<close> (the enumeration is declared in RNS.H).\<close>

datatype fill_type = use_FillBoundary | use_FillCoarsePatch | set_PhysBoundary

text \<open>
  A level holds one new-data field per state type: \<open>get_new_data(st)\<close> is
  \<open>new_data ! st\<close> and \<open>get_desc_lst().size()\<close> is the length of the list.
\<close>

record 'v amrlevel =
  new_data :: "'v multifab list"

record 'v amr =
  max_level :: int
  finest_level :: int
  amr_level :: "'v amrlevel list"
  level_steps :: "int list"
  level_count :: "int list"
  dt_level :: "real list"
  blockingFactor :: "int \<Rightarrow> int"

subsection \<open>Node sets, sweepers and the controller\<close>

text \<open>
  The \<open>nset\<close> of an IMEX sweeper. \<open>ctx\<close> and \<open>encap\<close> are pointers: \<open>Some lev\<close> is
  the address of \<open>getLevel(lev)\<close>, respectively of the object \<open>encaps[lev]\<close> points
  to, and \<open>None\<close> is the null pointer. \<open>Q\<close> are the node solutions.
\<close>

record 'v sdc_sweeper =
  nnodes :: int
  ctx :: "int option"
  encap :: "int option"
  Q :: "'v multifab list"

text \<open>
  The flags argument of \<open>sdc_mg_spread\<close> and \<open>sdc_mg_sweep\<close>: the controller
  passes either \<open>0\<close>, here \<open>NO_FLAGS\<close>, or \<open>SDC_MG_LAST_SWEEP\<close> (a macro of sdc.h).
\<close>

datatype mg_flags = NO_FLAGS | SDC_MG_LAST_SWEEP

text \<open>The calls to the providers, in the order in which the controller makes them.\<close>

datatype event =
    Ev_rebuild_mlsdc
  | Ev_Amr_regrid int
  | Ev_computeNewDt
  | Ev_fill_boundary int fill_type
  | Ev_avgDown int
  | Ev_copy_to_Q0 int nat
  | Ev_setTimeLevel int nat
  | Ev_sdc_mg_spread
  | Ev_sdc_mg_sweep mg_flags
  | Ev_copy_from_Qend int nat

text \<open>
  The object \<open>SDCAmr\<close>. \<open>amr\<close> is the sub-object of the base class. \<open>sweepers\<close> and
  \<open>encaps\<close> are the two vectors of pointers; an encapsulation is represented by the
  field it allocates. The orchestrator \<open>mg\<close> is represented by \<open>mg_nlevels\<close>:
  \<open>sdc_mg_reset\<close> empties it and \<open>sdc_mg_add_level\<close> appends, and the controller
  adds \<open>sweepers[lev]\<close> as level \<open>lev\<close>, so that \<open>mg.sweepers[k]\<close> and \<open>sweepers[k]\<close>
  are the same pointer for every \<open>k < mg.nlevels\<close>. \<open>trace\<close> is not a variable of the
  program: it logs the calls.
\<close>

record 'v sdcamr =
  amr :: "'v amr"
  max_iters :: int
  max_trefs :: int
  sweepers :: "'v sdc_sweeper option list"
  encaps :: "'v multifab option list"
  mg_nlevels :: int
  trace :: "event list"

text \<open>
  The operations the file takes from BoxLib, RNS and the step library.
  \<open>Amr_regrid\<close> returns the new finest level and the new levels; \<open>computeNewDt\<close>
  the new time steps; \<open>fill_boundary\<close> and \<open>avgDown\<close> the field they have written;
  \<open>build_encap\<close> the field an encapsulation of the level allocates;
  \<open>sdc_mg_spread\<close> and \<open>sdc_mg_sweep\<close> the node solution they leave at a level
  and a node (they keep the number of levels and of nodes).
\<close>

record 'v provider =
  okToRegrid :: "'v amr \<Rightarrow> int \<Rightarrow> bool"
  Amr_regrid :: "'v amr \<Rightarrow> int \<Rightarrow> real \<Rightarrow> bool \<Rightarrow> int \<times> 'v amrlevel list"
  computeNewDt :: "'v amr \<Rightarrow> real \<Rightarrow> real list"
  fill_boundary :: "'v amr \<Rightarrow> int \<Rightarrow> 'v multifab \<Rightarrow> real \<Rightarrow> fill_type \<Rightarrow> 'v multifab"
  avgDown :: "'v amr \<Rightarrow> int \<Rightarrow> 'v multifab \<Rightarrow> 'v multifab \<Rightarrow> 'v multifab"
  build_encap :: "'v amr \<Rightarrow> int \<Rightarrow> 'v multifab"
  sdc_mg_spread :: "'v sdcamr \<Rightarrow> real \<Rightarrow> real \<Rightarrow> mg_flags \<Rightarrow> int \<Rightarrow> nat \<Rightarrow> 'v multifab"
  sdc_mg_sweep :: "'v sdcamr \<Rightarrow> real \<Rightarrow> real \<Rightarrow> mg_flags \<Rightarrow> int \<Rightarrow> nat \<Rightarrow> 'v multifab"

subsection \<open>mlsdc_amr_restrict\<close>

text \<open>
  The kind of an \<open>sdc_state\<close>. sdc.h is not part of the file; the code compares
  the kind with \<open>SDC_SOLUTION\<close> only, and every other kind is \<open>SDC_OTHER\<close> with its
  code.
\<close>

datatype sdc_kind = SDC_SOLUTION | SDC_OTHER int

record sdc_state =
  t :: real
  kind :: sdc_kind

text \<open>
  The operator works on the fields \<open>F\<close> and \<open>G\<close> in place: its result is the two
  fields as it leaves them, with the calls it has made. The contexts \<open>ctxF\<close> and
  \<open>ctxG\<close> point to the levels, given here by their indices in the hierarchy \<open>a\<close>.
\<close>

record 'v transfer =
  UF :: "'v multifab"
  UG :: "'v multifab"
  calls :: "event list"

definition mlsdc_amr_restrict ::
  "'v provider \<Rightarrow> 'v amr \<Rightarrow> 'v multifab \<Rightarrow> 'v multifab \<Rightarrow> sdc_state \<Rightarrow> int \<Rightarrow> int \<Rightarrow> 'v transfer" where
  "mlsdc_amr_restrict P a F G state ctxF ctxG =
     (let x0 = \<lparr>UF = F, UG = G, calls = []\<rparr>;
          x1 = (if kind state = SDC_SOLUTION
                then x0\<lparr>UF := fill_boundary P a ctxF (UF x0) (t state) use_FillBoundary,
                        calls := calls x0 @ [Ev_fill_boundary ctxF use_FillBoundary]\<rparr>
                else x0);
          x2 = x1\<lparr>UG := avgDown P a ctxG (UG x1) (UF x1),
                  calls := calls x1 @ [Ev_avgDown ctxG]\<rparr>
      in if kind state = SDC_SOLUTION
         then x2\<lparr>UG := fill_boundary P a ctxG (UG x2) (t state) use_FillBoundary,
                 calls := calls x2 @ [Ev_fill_boundary ctxG use_FillBoundary]\<rparr>
         else x2)"

subsection \<open>rns_sdc_build_level\<close>

text \<open>
  The arithmetic is that of C's 32-bit \<open>int\<close>: a result outside the range is
  undefined behaviour, \<open>None\<close>.
\<close>

definition c_int :: "int \<Rightarrow> int option" where
  "c_int x = (if - (2 ^ 31) \<le> x \<and> x \<le> 2 ^ 31 - 1 then Some x else None)"

text \<open>
  \<open>(int) pow(b, e)\<close> for two \<open>int\<close> arguments: the power is computed in double
  precision, exactly whenever it fits an \<open>int\<close>, and the conversion truncates
  towards zero; a value outside the range of \<open>int\<close> makes the conversion undefined.
\<close>

definition int_pow :: "int \<Rightarrow> int \<Rightarrow> int option" where
  "int_pow b e =
     (if 0 \<le> e then c_int (b ^ nat e)
      else if b = 0 then None
      else if b = 1 then Some 1
      else if b = - 1 then Some (if even e then 1 else - 1)
      else Some 0)"

definition rns_sdc_build_level :: "int \<Rightarrow> 'v sdc_sweeper option" where
  "rns_sdc_build_level lev =
     (let nnodes0 = 3; trat = 2 in
      do {
        p \<leftarrow> int_pow trat lev;
        m \<leftarrow> c_int ((nnodes0 - 1) * p);
        n \<leftarrow> c_int (1 + m);
        Some \<lparr>nnodes = n, ctx = None, encap = None, Q = []\<rparr>
      })"

subsection \<open>The constructor\<close>

text \<open>
  How the constructor can fail: \<open>BoxLib::Abort\<close> with its message, or undefined
  behaviour.
\<close>

datatype fault = Abort string | Undefined

text \<open>
  The loop over the blocking factors: \<open>BoxLib::Abort\<close> ends the process at the
  first level whose blocking factor is below 4.
\<close>

fun check_blocking :: "(int \<Rightarrow> int) \<Rightarrow> int list \<Rightarrow> fault option" where
  "check_blocking bf [] = None"
| "check_blocking bf (i # is) =
     (if bf i < 4 then Some (Abort ''For AMR runs, set blocking_factor to at least 4.'')
      else check_blocking bf is)"

text \<open>
  \<open>SDCAmr::SDCAmr()\<close>, run on the base object that \<open>Amr::Amr()\<close> has built. The two
  arguments are what \<open>ParmParse::query\<close> finds for \<open>mlsdc.max_iters\<close> and
  \<open>mlsdc.max_trefs\<close>. The loop that clears \<open>sweepers\<close> counts with an
  \<open>unsigned int\<close>: with a negative \<open>max_level\<close> it runs off the vector.
\<close>

definition SDCAmr_ctor :: "'v amr \<Rightarrow> int option \<Rightarrow> int option \<Rightarrow> fault + 'v sdcamr" where
  "SDCAmr_ctor a q_iters q_trefs =
     (let s = \<lparr>amr = a,
               max_iters = (case q_iters of Some n \<Rightarrow> n | None \<Rightarrow> 22),
               max_trefs = (case q_trefs of Some n \<Rightarrow> n | None \<Rightarrow> 3),
               sweepers = replicate (nat (max_level a + 1)) None,
               encaps = replicate (nat (max_level a + 1)) None,
               mg_nlevels = 0,
               trace = []\<rparr>
      in if max_level a < 0 then Inl Undefined
         else if max_level a > 0 then
           (case check_blocking (blockingFactor a) [0..max_level a] of
              Some e \<Rightarrow> Inl e
            | None \<Rightarrow> Inr s)
         else Inr s)"

subsection \<open>rebuild_mlsdc and regrid\<close>

text \<open>\<open>mg.sweepers[lev]\<close>, dereferenced.\<close>

definition mg_sweeper :: "'v sdcamr \<Rightarrow> int \<Rightarrow> 'v sdc_sweeper option" where
  "mg_sweeper s lev =
     (if lev < mg_nlevels s
      then (case lookup (sweepers s) lev of Some (Some sw) \<Rightarrow> Some sw | _ \<Rightarrow> None)
      else None)"

text \<open>
  The body of the first loop of \<open>rebuild_mlsdc\<close>. The code deletes the object
  behind \<open>encaps[lev]\<close> and leaves the pointer dangling; the dangling pointer is
  \<open>None\<close>.
\<close>

definition destroy_level :: "int \<Rightarrow> 'v sdcamr \<Rightarrow> 'v sdcamr option" where
  "destroy_level lev s =
     do {
       p \<leftarrow> lookup (sweepers s) lev;
       (case p of
          None \<Rightarrow> Some s
        | Some sw \<Rightarrow>
            do {
              e \<leftarrow> lookup (encaps s) lev;
              _ \<leftarrow> e;
              sws \<leftarrow> store (sweepers s) lev None;
              encs \<leftarrow> store (encaps s) lev None;
              Some (s\<lparr>sweepers := sws, encaps := encs\<rparr>)
            })
     }"

text \<open>The body of the second loop.\<close>

definition rebuild_level :: "'v provider \<Rightarrow> int \<Rightarrow> 'v sdcamr \<Rightarrow> 'v sdcamr option" where
  "rebuild_level P lev s =
     do {
       encs \<leftarrow> store (encaps s) lev (Some (build_encap P (amr s) lev));
       sw \<leftarrow> rns_sdc_build_level lev;
       sws \<leftarrow> store (sweepers s) lev (Some sw);
       _ \<leftarrow> lookup (amr_level (amr s)) lev;
       sws' \<leftarrow> store sws lev (Some (sw\<lparr>ctx := Some lev, encap := Some lev\<rparr>));
       Some (s\<lparr>encaps := encs, sweepers := sws', mg_nlevels := mg_nlevels s + 1\<rparr>)
     }"

text \<open>
  \<open>sdc_mg_allocate\<close> of the step library: every level of the orchestrator gets its
  \<open>nnodes\<close> node solutions from the encapsulation its node set points to.
\<close>

definition allocate_level :: "int \<Rightarrow> 'v sdcamr \<Rightarrow> 'v sdcamr option" where
  "allocate_level lev s =
     do {
       sw \<leftarrow> mg_sweeper s lev;
       ei \<leftarrow> encap sw;
       eo \<leftarrow> lookup (encaps s) ei;
       e \<leftarrow> eo;
       sws \<leftarrow> store (sweepers s) lev (Some (sw\<lparr>Q := replicate (nat (nnodes sw)) e\<rparr>));
       Some (s\<lparr>sweepers := sws\<rparr>)
     }"

definition sdc_mg_allocate :: "'v sdcamr \<Rightarrow> 'v sdcamr option" where
  "sdc_mg_allocate s = forM [0..mg_nlevels s - 1] allocate_level s"

text \<open>
  \<open>SDCAmr::rebuild_mlsdc\<close>. The first loop counts with an \<open>unsigned int\<close>, as in
  the constructor.
\<close>

definition rebuild_mlsdc :: "'v provider \<Rightarrow> 'v sdcamr \<Rightarrow> 'v sdcamr option" where
  "rebuild_mlsdc P s =
     (if max_level (amr s) < 0 then None
      else
        do {
          let s0 = s\<lparr>mg_nlevels := 0, trace := trace s @ [Ev_rebuild_mlsdc]\<rparr>;
          s1 \<leftarrow> forM [0..max_level (amr s0)] destroy_level s0;
          s2 \<leftarrow> forM [0..finest_level (amr s1)] (rebuild_level P) s1;
          sdc_mg_allocate s2
        })"

text \<open>\<open>SDCAmr::regrid\<close>: \<open>Amr::regrid\<close>, then \<open>rebuild_mlsdc\<close>.\<close>

definition regrid :: "'v provider \<Rightarrow> int \<Rightarrow> real \<Rightarrow> bool \<Rightarrow> 'v sdcamr \<Rightarrow> 'v sdcamr option" where
  "regrid P lbase time initial s =
     (let (f, lv) = Amr_regrid P (amr s) lbase time initial;
          s1 = s\<lparr>amr := (amr s)\<lparr>finest_level := f, amr_level := lv\<rparr>,
                 trace := trace s @ [Ev_Amr_regrid lbase]\<rparr>
      in rebuild_mlsdc P s1)"

subsection \<open>timeStep\<close>

text \<open>The body of the regrid loop, up to the update of \<open>lev_top\<close>.\<close>

definition reset_count :: "int \<Rightarrow> 'v sdcamr \<Rightarrow> 'v sdcamr option" where
  "reset_count k s =
     do {
       lc \<leftarrow> store (level_count (amr s)) k 0;
       Some (s\<lparr>amr := (amr s)\<lparr>level_count := lc\<rparr>\<rparr>)
     }"

definition regrid_body :: "'v provider \<Rightarrow> real \<Rightarrow> real \<Rightarrow> int \<Rightarrow> 'v sdcamr \<Rightarrow> 'v sdcamr option" where
  "regrid_body P time stop_time i s =
     (if okToRegrid P (amr s) i then
        do {
          s1 \<leftarrow> regrid P i time False s;
          _ \<leftarrow> lookup (amr_level (amr s1)) 0;
          let s2 = s1\<lparr>amr := (amr s1)\<lparr>dt_level := computeNewDt P (amr s1) stop_time\<rparr>,
                      trace := trace s1 @ [Ev_computeNewDt]\<rparr>;
          forM [i..finest_level (amr s2)] reset_count s2
        }
      else Some s)"

text \<open>Seeding: the loop body for one level and one state type.\<close>

definition put_new_data :: "int \<Rightarrow> nat \<Rightarrow> 'v multifab \<Rightarrow> 'v sdcamr \<Rightarrow> 'v sdcamr option" where
  "put_new_data lev st U s =
     do {
       L \<leftarrow> lookup (amr_level (amr s)) lev;
       nd \<leftarrow> store (new_data L) (int st) U;
       ls \<leftarrow> store (amr_level (amr s)) lev (L\<lparr>new_data := nd\<rparr>);
       Some (s\<lparr>amr := (amr s)\<lparr>amr_level := ls\<rparr>\<rparr>)
     }"

definition get_new_data :: "'v sdcamr \<Rightarrow> int \<Rightarrow> nat \<Rightarrow> 'v multifab option" where
  "get_new_data s lev st =
     do {
       L \<leftarrow> lookup (amr_level (amr s)) lev;
       lookup (new_data L) (int st)
     }"

definition desc_lst_size :: "'v sdcamr \<Rightarrow> int \<Rightarrow> nat option" where
  "desc_lst_size s lev =
     do {
       L \<leftarrow> lookup (amr_level (amr s)) lev;
       Some (length (new_data L))
     }"

definition put_Q :: "int \<Rightarrow> int \<Rightarrow> 'v multifab \<Rightarrow> 'v sdcamr \<Rightarrow> 'v sdcamr option" where
  "put_Q lev m U s =
     do {
       sw \<leftarrow> mg_sweeper s lev;
       q \<leftarrow> store (Q sw) m U;
       sws \<leftarrow> store (sweepers s) lev (Some (sw\<lparr>Q := q\<rparr>));
       Some (s\<lparr>sweepers := sws\<rparr>)
     }"

definition get_Q :: "'v sdcamr \<Rightarrow> int \<Rightarrow> int \<Rightarrow> 'v multifab option" where
  "get_Q s lev m =
     do {
       sw \<leftarrow> mg_sweeper s lev;
       lookup (Q sw) m
     }"

definition fill_boundary_type :: "int \<Rightarrow> fill_type" where
  "fill_boundary_type lev = (if lev = 0 then use_FillBoundary else use_FillCoarsePatch)"

definition seed_state :: "'v provider \<Rightarrow> real \<Rightarrow> int \<Rightarrow> nat \<Rightarrow> 'v sdcamr \<Rightarrow> 'v sdcamr option" where
  "seed_state P time lev st s =
     do {
       Unew \<leftarrow> get_new_data s lev st;
       let Unew' = fill_boundary P (amr s) lev Unew time (fill_boundary_type lev);
       s1 \<leftarrow> put_new_data lev st Unew' s;
       let s2 = s1\<lparr>trace := trace s1 @ [Ev_fill_boundary lev (fill_boundary_type lev)]\<rparr>;
       U0 \<leftarrow> get_Q s2 lev 0;
       U0' \<leftarrow> MultiFab_Copy U0 Unew' 0 0 (nComp U0) (nGrow U0);
       s3 \<leftarrow> put_Q lev 0 U0' s2;
       Some (s3\<lparr>trace := trace s3 @ [Ev_copy_to_Q0 lev st]\<rparr>)
     }"

definition seed_level :: "'v provider \<Rightarrow> real \<Rightarrow> int \<Rightarrow> 'v sdcamr \<Rightarrow> 'v sdcamr option" where
  "seed_level P time lev s =
     do {
       n \<leftarrow> desc_lst_size s lev;
       forM [0..<n] (seed_state P time lev) s
     }"

definition seeding :: "'v provider \<Rightarrow> real \<Rightarrow> 'v sdcamr \<Rightarrow> 'v sdcamr option" where
  "seeding P time s = forM [0..finest_level (amr s)] (seed_level P time) s"

text \<open>
  Setting the times: \<open>setTimeLevel\<close> writes the time stamps that BoxLib keeps
  beside the fields; the call is logged.
\<close>

definition set_time_state :: "real \<Rightarrow> int \<Rightarrow> nat \<Rightarrow> 'v sdcamr \<Rightarrow> 'v sdcamr option" where
  "set_time_state time lev st s =
     do {
       _ \<leftarrow> get_new_data s lev st;
       _ \<leftarrow> lookup (dt_level (amr s)) 0;
       Some (s\<lparr>trace := trace s @ [Ev_setTimeLevel lev st]\<rparr>)
     }"

definition set_time_level :: "real \<Rightarrow> int \<Rightarrow> 'v sdcamr \<Rightarrow> 'v sdcamr option" where
  "set_time_level time lev s =
     do {
       n \<leftarrow> desc_lst_size s lev;
       forM [0..<n] (set_time_state time lev) s
     }"

definition set_times :: "real \<Rightarrow> 'v sdcamr \<Rightarrow> 'v sdcamr option" where
  "set_times time s = forM [0..finest_level (amr s)] (set_time_level time) s"

text \<open>
  Spread and sweep write the node solutions of the levels of the orchestrator.
\<close>

definition write_nodes :: "(int \<Rightarrow> nat \<Rightarrow> 'v multifab) \<Rightarrow> 'v sdcamr \<Rightarrow> 'v sdcamr" where
  "write_nodes f s =
     s\<lparr>sweepers :=
         map (\<lambda>(k, p). if int k < mg_nlevels s
                       then map_option (\<lambda>sw. sw\<lparr>Q := map (f (int k)) [0..<length (Q sw)]\<rparr>) p
                       else p)
             (enumerate 0 (sweepers s))\<rparr>"

definition spread :: "'v provider \<Rightarrow> real \<Rightarrow> 'v sdcamr \<Rightarrow> 'v sdcamr option" where
  "spread P time s =
     do {
       dt \<leftarrow> lookup (dt_level (amr s)) 0;
       Some ((write_nodes (sdc_mg_spread P s time dt NO_FLAGS) s)
               \<lparr>trace := trace s @ [Ev_sdc_mg_spread]\<rparr>)
     }"

definition sweep_flags :: "'v sdcamr \<Rightarrow> int \<Rightarrow> mg_flags" where
  "sweep_flags s k = (if k = max_iters s - 1 then SDC_MG_LAST_SWEEP else NO_FLAGS)"

text \<open>
  A call \<open>sdc_mg_sweep(&mg, t, dt, flags)\<close> of the step library: the controller as
  the call leaves it.
\<close>

definition mg_sweep :: "'v provider \<Rightarrow> real \<Rightarrow> real \<Rightarrow> mg_flags \<Rightarrow> 'v sdcamr \<Rightarrow> 'v sdcamr" where
  "mg_sweep P time dt fl s =
     (write_nodes (sdc_mg_sweep P s time dt fl) s)\<lparr>trace := trace s @ [Ev_sdc_mg_sweep fl]\<rparr>"

text \<open>The body of the sweep loop, for the iteration \<open>k\<close>.\<close>

definition sweep :: "'v provider \<Rightarrow> real \<Rightarrow> int \<Rightarrow> 'v sdcamr \<Rightarrow> 'v sdcamr option" where
  "sweep P time k s =
     do {
       dt \<leftarrow> lookup (dt_level (amr s)) 0;
       Some (mg_sweep P time dt (sweep_flags s k) s)
     }"

definition sweeping :: "'v provider \<Rightarrow> real \<Rightarrow> 'v sdcamr \<Rightarrow> 'v sdcamr option" where
  "sweeping P time s = forM [0..max_iters s - 1] (sweep P time) s"

text \<open>Finalizing: the loop body for one level and one state type.\<close>

definition final_state :: "int \<Rightarrow> nat \<Rightarrow> 'v sdcamr \<Rightarrow> 'v sdcamr option" where
  "final_state lev st s =
     do {
       sw \<leftarrow> mg_sweeper s lev;
       Unew \<leftarrow> get_new_data s lev st;
       Uend \<leftarrow> lookup (Q sw) (nnodes sw - 1);
       Unew' \<leftarrow> MultiFab_Copy Unew Uend 0 0 (nComp Uend) (nGrow Uend);
       s1 \<leftarrow> put_new_data lev st Unew' s;
       Some (s1\<lparr>trace := trace s1 @ [Ev_copy_from_Qend lev st]\<rparr>)
     }"

definition final_level :: "int \<Rightarrow> 'v sdcamr \<Rightarrow> 'v sdcamr option" where
  "final_level lev s =
     do {
       n \<leftarrow> desc_lst_size s lev;
       forM [0..<n] (final_state lev) s
     }"

definition finalizing :: "'v sdcamr \<Rightarrow> 'v sdcamr option" where
  "finalizing s = forM [0..finest_level (amr s)] final_level s"

text \<open>
  \<open>level_steps[level]++; level_count[level]++\<close>. The counters are integers
  without bound: a run that counts up to the largest \<open>int\<close> is not considered.
\<close>

definition bump_counters :: "int \<Rightarrow> 'v sdcamr \<Rightarrow> 'v sdcamr option" where
  "bump_counters level s =
     do {
       n \<leftarrow> lookup (level_steps (amr s)) level;
       ls \<leftarrow> store (level_steps (amr s)) level (n + 1);
       c \<leftarrow> lookup (level_count (amr s)) level;
       lc \<leftarrow> store (level_count (amr s)) level (c + 1);
       Some (s\<lparr>amr := (amr s)\<lparr>level_steps := ls, level_count := lc\<rparr>\<rparr>)
     }"

subsection \<open>Loops\<close>

lemma forM_append:
  "forM (xs @ ys) f s = (case forM xs f s of None \<Rightarrow> None | Some s' \<Rightarrow> forM ys f s')"
  by (induction xs arbitrary: s) (auto split: option.splits)

lemma forM_invariant:
  assumes "forM xs f s = Some s'" and "I s"
    and "\<And>x a b. x \<in> set xs \<Longrightarrow> I a \<Longrightarrow> f x a = Some b \<Longrightarrow> I b"
  shows "I s'"
  using assms
proof (induction xs arbitrary: s)
  case Nil
  then show ?case by simp
next
  case (Cons x xs)
  from Cons.prems(1) obtain b where b: "f x s = Some b" "forM xs f b = Some s'"
    by (auto split: option.splits)
  have "I b" using Cons.prems(2,3) b(1) by auto
  with b(2) Cons.IH Cons.prems(3) show ?case by auto
qed

lemma forM_indexed:
  assumes "forM xs f s = Some s'" and "I [] s"
    and "\<And>ys x a b. I ys a \<Longrightarrow> f x a = Some b \<Longrightarrow> x \<in> set xs \<Longrightarrow> I (ys @ [x]) b"
  shows "I xs s'"
proof -
  have "forM xs f a = Some s' \<Longrightarrow> I pre a \<Longrightarrow> set xs \<subseteq> set zs
        \<Longrightarrow> (\<And>ys x a b. I ys a \<Longrightarrow> f x a = Some b \<Longrightarrow> x \<in> set zs \<Longrightarrow> I (ys @ [x]) b)
        \<Longrightarrow> I (pre @ xs) s'" for a pre zs
  proof (induction xs arbitrary: a pre)
    case Nil
    then show ?case by simp
  next
    case (Cons x xs)
    from Cons.prems(1) obtain b where b: "f x a = Some b" "forM xs f b = Some s'"
      by (auto split: option.splits)
    have "I (pre @ [x]) b" using Cons.prems(2,3,4) b(1) by auto
    from Cons.IH[OF b(2) this] Cons.prems(3,4) show ?case by auto
  qed
  from this[of s "[]" xs] assms show ?thesis by auto
qed

lemma some_of_map_option: "map_option f x = Some y \<Longrightarrow> \<exists>z. x = Some z \<and> f z = y"
  by (cases x) auto

text \<open>What the parts of rebuild keep.\<close>

definition keeps :: "'v sdcamr \<Rightarrow> 'v sdcamr \<Rightarrow> bool" where
  "keeps s s' = (amr s' = amr s \<and> trace s' = trace s \<and> max_iters s' = max_iters s
     \<and> max_trefs s' = max_trefs s)"

lemma keeps_refl: "keeps s s" by (simp add: keeps_def)
lemma keeps_trans: "keeps a b \<Longrightarrow> keeps b c \<Longrightarrow> keeps a c" by (simp add: keeps_def)

lemma forM_keeps:
  assumes "forM xs f s = Some s'" and "\<And>x a b. f x a = Some b \<Longrightarrow> keeps a b"
  shows "keeps s s'"
  using assms(1)
  by (rule forM_invariant[where I="keeps s"]) (auto intro: keeps_refl keeps_trans assms(2))

lemma destroy_level_keeps: "destroy_level lev s = Some s' \<Longrightarrow> keeps s s'"
  by (auto simp: destroy_level_def keeps_def store_def split: bind_splits option.splits if_splits)

lemma rebuild_level_keeps: "rebuild_level P lev s = Some s' \<Longrightarrow> keeps s s'"
  by (auto simp: rebuild_level_def keeps_def store_def split: bind_splits option.splits if_splits)

lemma allocate_level_keeps: "allocate_level lev s = Some s' \<Longrightarrow> keeps s s'"
  by (auto simp: allocate_level_def keeps_def store_def split: bind_splits option.splits if_splits)

lemma rebuild_mlsdc_amr:
  assumes "rebuild_mlsdc P s = Some s'"
  shows "amr s' = amr s \<and> trace s' = trace s @ [Ev_rebuild_mlsdc] \<and> max_iters s' = max_iters s"
proof -
  let ?s0 = "s\<lparr>mg_nlevels := 0, trace := trace s @ [Ev_rebuild_mlsdc]\<rparr>"
  from assms obtain s1 s2 where
    1: "forM [0..max_level (amr ?s0)] destroy_level ?s0 = Some s1" and
    2: "forM [0..finest_level (amr s1)] (rebuild_level P) s1 = Some s2" and
    3: "sdc_mg_allocate s2 = Some s'"
    by (auto simp: rebuild_mlsdc_def Let_def split: bind_splits if_splits)
  have "keeps ?s0 s1" using 1 by (rule forM_keeps) (rule destroy_level_keeps)
  moreover have "keeps s1 s2" using 2 by (rule forM_keeps) (rule rebuild_level_keeps)
  moreover have "keeps s2 s'" using 3 unfolding sdc_mg_allocate_def
    by (rule forM_keeps) (rule allocate_level_keeps)
  ultimately show ?thesis by (simp add: keeps_def)
qed

subsection \<open>The regrid loop and the step\<close>

lemma regrid_amr:
  assumes "regrid P lbase time initial s = Some s'"
  shows "max_level (amr s') = max_level (amr s)"
    and "trace s' = trace s @ [Ev_Amr_regrid lbase, Ev_rebuild_mlsdc]"
    and "max_iters s' = max_iters s"
  using assms rebuild_mlsdc_amr
  by (fastforce simp: regrid_def Let_def split: prod.splits)+

lemma reset_count_max_level:
  "reset_count k s = Some s' \<Longrightarrow>
     max_level (amr s') = max_level (amr s) \<and> finest_level (amr s') = finest_level (amr s)
     \<and> amr_level (amr s') = amr_level (amr s)
     \<and> trace s' = trace s \<and> max_iters s' = max_iters s \<and> sweepers s' = sweepers s
     \<and> mg_nlevels s' = mg_nlevels s"
  by (auto simp: reset_count_def split: bind_splits)

lemma regrid_body_max_level:
  assumes "regrid_body P time stop_time i s = Some s'"
  shows "max_level (amr s') = max_level (amr s)"
proof (cases "okToRegrid P (amr s) i")
  case False
  with assms show ?thesis by (simp add: regrid_body_def)
next
  case True
  with assms obtain s1 where
    1: "regrid P i time False s = Some s1" and
    2: "forM [i..finest_level (amr s1)] reset_count
          (s1\<lparr>amr := (amr s1)\<lparr>dt_level := computeNewDt P (amr s1) stop_time\<rparr>,
               trace := trace s1 @ [Ev_computeNewDt]\<rparr>) = Some s'"
    by (auto simp: regrid_body_def Let_def split: bind_splits)
  have "max_level (amr s') = max_level (amr s1)"
    using 2 by (rule forM_invariant[where I="\<lambda>x. max_level (amr x) = max_level (amr s1)"])
      (auto dest: reset_count_max_level)
  with regrid_amr(1)[OF 1] show ?thesis by simp
qed

text \<open>
  The regrid loop of \<open>timeStep\<close>: \<open>i\<close> and \<open>lev_top\<close> are its two variables.
\<close>

function regrid_loop ::
  "'v provider \<Rightarrow> real \<Rightarrow> real \<Rightarrow> int \<Rightarrow> int \<Rightarrow> 'v sdcamr \<Rightarrow> 'v sdcamr option" where
  "regrid_loop P time stop_time i lev_top s =
     (if i \<le> lev_top then
        (case regrid_body P time stop_time i s of
           None \<Rightarrow> None
         | Some s1 \<Rightarrow>
             regrid_loop P time stop_time (i + 1)
               (if finest_level (amr s) > finest_level (amr s1)
                then min (finest_level (amr s1)) (max_level (amr s1) - 1)
                else lev_top)
               s1)
      else Some s)"
  by pat_completeness auto
termination
proof (relation "measure (\<lambda>(P, time, stop_time, i, lev_top, s).
          nat (max lev_top (max_level (amr s) - 1) + 1 - i))", goal_cases)
  case 1
  then show ?case by simp
next
  case (2 P time stop_time i lev_top s s1)
  then show ?case using regrid_body_max_level[OF 2(2)] by auto
qed

text \<open>
  \<open>timeStep\<close>, in three parts: \<open>regrid_phase\<close> is the step up to the end of the
  regrid loop, \<open>timeStep_begin\<close> the step up to the end of the loop that sets the
  initial conditions (the seeding).
\<close>

definition regrid_phase ::
  "'v provider \<Rightarrow> int \<Rightarrow> real \<Rightarrow> real \<Rightarrow> 'v sdcamr \<Rightarrow> 'v sdcamr option" where
  "regrid_phase P level time stop_time s =
     do {
       p \<leftarrow> lookup (sweepers s) 0;
       s1 \<leftarrow> (case p of None \<Rightarrow> rebuild_mlsdc P s | Some _ \<Rightarrow> Some s);
       let lev_top = min (finest_level (amr s1)) (max_level (amr s1) - 1);
       regrid_loop P time stop_time level lev_top s1
     }"

definition timeStep_begin ::
  "'v provider \<Rightarrow> int \<Rightarrow> real \<Rightarrow> real \<Rightarrow> 'v sdcamr \<Rightarrow> 'v sdcamr option" where
  "timeStep_begin P level time stop_time s =
     do {
       s2 \<leftarrow> regrid_phase P level time stop_time s;
       seeding P time s2
     }"

definition timeStep ::
  "'v provider \<Rightarrow> int \<Rightarrow> real \<Rightarrow> int \<Rightarrow> int \<Rightarrow> real \<Rightarrow> 'v sdcamr \<Rightarrow> 'v sdcamr option" where
  "timeStep P level time iteration niter stop_time s =
     do {
       s3 \<leftarrow> timeStep_begin P level time stop_time s;
       s4 \<leftarrow> set_times time s3;
       s5 \<leftarrow> spread P time s4;
       s6 \<leftarrow> sweeping P time s5;
       s7 \<leftarrow> finalizing s6;
       bump_counters level s7
     }"

text \<open>The two entry points of the driving loop, and a sequence of calls.\<close>

datatype call = Step int real int int real | Regrid int real bool

fun do_call :: "'v provider \<Rightarrow> call \<Rightarrow> 'v sdcamr \<Rightarrow> 'v sdcamr option" where
  "do_call P (Step level time iteration niter stop_time) s =
     timeStep P level time iteration niter stop_time s"
| "do_call P (Regrid lbase time initial) s = regrid P lbase time initial s"

definition run :: "'v provider \<Rightarrow> call list \<Rightarrow> 'v sdcamr \<Rightarrow> 'v sdcamr option" where
  "run P cs s = forM cs (do_call P) s"

subsection \<open>The vocabulary of the properties\<close>

text \<open>The events that a call has appended to the log.\<close>

definition new_events :: "'v sdcamr \<Rightarrow> 'v sdcamr \<Rightarrow> event list" where
  "new_events s s' = drop (length (trace s)) (trace s')"

text \<open>Classes of events.\<close>

definition is_fill :: "event \<Rightarrow> bool" where
  "is_fill e = (case e of Ev_fill_boundary _ _ \<Rightarrow> True | _ \<Rightarrow> False)"

definition is_regrid :: "event \<Rightarrow> bool" where
  "is_regrid e = (case e of Ev_Amr_regrid _ \<Rightarrow> True | _ \<Rightarrow> False)"


definition is_step_ev :: "event \<Rightarrow> bool" where
  "is_step_ev e = (case e of
      Ev_fill_boundary _ _ \<Rightarrow> True | Ev_copy_to_Q0 _ _ \<Rightarrow> True | Ev_setTimeLevel _ _ \<Rightarrow> True
    | Ev_sdc_mg_spread \<Rightarrow> True | Ev_copy_from_Qend _ _ \<Rightarrow> True | _ \<Rightarrow> False)"

text \<open>
  \<open>emits A f\<close>: a call of \<open>f\<close> that returns has appended to the log only events
  of the class \<open>A\<close>, and has kept \<open>max_iters\<close>.
\<close>

definition emits :: "(event \<Rightarrow> bool) \<Rightarrow> ('v sdcamr \<Rightarrow> 'v sdcamr option) \<Rightarrow> bool" where
  "emits A f = (\<forall>s s'. f s = Some s' \<longrightarrow>
     max_iters s' = max_iters s \<and> (\<exists>es. trace s' = trace s @ es \<and> list_all A es))"

text \<open>The sweep calls of a step with \<open>max_iters = n\<close>.\<close>

definition sweep_events :: "int \<Rightarrow> event list" where
  "sweep_events n =
     map (\<lambda>k. Ev_sdc_mg_sweep (if k = n - 1 then SDC_MG_LAST_SWEEP else NO_FLAGS)) [0..n - 1]"

text \<open>The calls that the regrid loop makes for a level it regrids.\<close>

definition regrid_block :: "int \<Rightarrow> event list" where
  "regrid_block i = [Ev_Amr_regrid i, Ev_rebuild_mlsdc, Ev_computeNewDt]"

text \<open>The calls of one iteration of the seeding loop.\<close>

definition seed_events :: "int \<Rightarrow> nat \<Rightarrow> event list" where
  "seed_events lev st =
     [Ev_fill_boundary lev (if lev = 0 then use_FillBoundary else use_FillCoarsePatch),
      Ev_copy_to_Q0 lev st]"

text \<open>
  Reading a log from the left: the node storage is stale after a mesh regrid and
  until the next rebuild. \<open>stale_free d es\<close> holds when no seeding copy of \<open>es\<close>
  is made while it is stale, \<open>d\<close> telling whether it is stale at the start;
  \<open>stale_after d es\<close> tells whether it is stale at the end.
\<close>

fun stale_free :: "bool \<Rightarrow> event list \<Rightarrow> bool" where
  "stale_free d [] = True"
| "stale_free d (Ev_Amr_regrid i # es) = stale_free True es"
| "stale_free d (Ev_rebuild_mlsdc # es) = stale_free False es"
| "stale_free d (Ev_copy_to_Q0 lev st # es) = (\<not> d \<and> stale_free d es)"
| "stale_free d (e # es) = stale_free d es"

fun stale_after :: "bool \<Rightarrow> event list \<Rightarrow> bool" where
  "stale_after d [] = d"
| "stale_after d (Ev_Amr_regrid i # es) = stale_after True es"
| "stale_after d (Ev_rebuild_mlsdc # es) = stale_after False es"
| "stale_after d (e # es) = stale_after d es"

text \<open>
  \<open>counts_reset s s'\<close>: from \<open>s\<close> to \<open>s'\<close> the step counters have not changed and
  each sub-step counter has either not changed or been reset to zero.
\<close>

definition counts_reset :: "'v sdcamr \<Rightarrow> 'v sdcamr \<Rightarrow> bool" where
  "counts_reset s s' =
     (level_steps (amr s') = level_steps (amr s)
      \<and> length (level_count (amr s')) = length (level_count (amr s))
      \<and> (\<forall>k < length (level_count (amr s)).
            level_count (amr s') ! k = level_count (amr s) ! k \<or> level_count (amr s') ! k = 0))"

definition same_counters :: "'v sdcamr \<Rightarrow> 'v sdcamr \<Rightarrow> bool" where
  "same_counters s s' =
     (level_steps (amr s') = level_steps (amr s) \<and> level_count (amr s') = level_count (amr s))"

text \<open>The number of state types of a level (0 when there is no such level).\<close>

definition nstates :: "'v sdcamr \<Rightarrow> int \<Rightarrow> nat" where
  "nstates s lev = (case desc_lst_size s lev of Some n \<Rightarrow> n | None \<Rightarrow> 0)"

text \<open>
  \<open>seeded s lev\<close>: node \<open>Q[0]\<close> of the level holds, on all its components and
  ghost layers, the data of the new-data field of the last state type of the level.
\<close>

definition seeded :: "'v sdcamr \<Rightarrow> int \<Rightarrow> bool" where
  "seeded s lev =
     (0 < nstates s lev \<longrightarrow>
        (\<exists>U0 U. get_Q s lev 0 = Some U0 \<and> get_new_data s lev (nstates s lev - 1) = Some U
                \<and> agree_on U0 U))"

text \<open>\<open>mg.sweepers[lev]->nset->Q[nnodes-1]\<close>.\<close>

definition get_Qend :: "'v sdcamr \<Rightarrow> int \<Rightarrow> 'v multifab option" where
  "get_Qend s lev =
     do {
       sw \<leftarrow> mg_sweeper s lev;
       lookup (Q sw) (nnodes sw - 1)
     }"

text \<open>
  \<open>finalized s lev st\<close>: the new-data field of the state type holds the data of
  the last node \<open>Q[nnodes-1]\<close> of the level, on all the components and ghost layers
  of the node.
\<close>

definition finalized :: "'v sdcamr \<Rightarrow> int \<Rightarrow> nat \<Rightarrow> bool" where
  "finalized s lev st =
     (\<exists>Uend U. get_Qend s lev = Some Uend \<and> get_new_data s lev st = Some U
              \<and> agree_on Uend U)"

text \<open>The sweeper of a level, as the second loop leaves it and as the allocation leaves it.\<close>

definition attached :: "int \<Rightarrow> 'v sdc_sweeper \<Rightarrow> 'v sdc_sweeper" where
  "attached lev sw = sw\<lparr>ctx := Some lev, encap := Some lev\<rparr>"

definition allocated :: "'v provider \<Rightarrow> 'v amr \<Rightarrow> int \<Rightarrow> 'v sdc_sweeper \<Rightarrow> 'v sdc_sweeper" where
  "allocated P a lev sw =
     sw\<lparr>ctx := Some lev, encap := Some lev,
        Q := replicate (nat (nnodes sw)) (build_encap P a lev)\<rparr>"

text \<open>
  The value that \<open>lev_top\<close> has when the regrid loop of a step starts.
\<close>

definition lev_top0 :: "'v sdcamr \<Rightarrow> int" where
  "lev_top0 s = min (finest_level (amr s)) (max_level (amr s) - 1)"

text \<open>
  \<open>no_regrid P level s\<close>: \<open>okToRegrid\<close> holds for none of the levels that the regrid
  loop of a step called for \<open>level\<close> visits. Up to its first regrid the loop leaves
  the hierarchy as it is, so the test is made on the hierarchy as the step finds it.
\<close>

definition no_regrid :: "'v provider \<Rightarrow> int \<Rightarrow> 'v sdcamr \<Rightarrow> bool" where
  "no_regrid P level s = (\<forall>i \<in> set [level..lev_top0 s]. \<not> okToRegrid P (amr s) i)"

text \<open>
  Two hierarchies have the same mesh: they differ at most in the time steps, the
  counters and the blocking factors.
\<close>

definition same_mesh :: "'v amr \<Rightarrow> 'v amr \<Rightarrow> bool" where
  "same_mesh a b = (max_level a = max_level b \<and> finest_level a = finest_level b
     \<and> amr_level a = amr_level b)"

text \<open>
  \<open>rebuilt_for P a s\<close>: the sweepers and the node storage of \<open>s\<close> are those that
  \<open>rebuild_mlsdc\<close> builds on the mesh \<open>a\<close>: one level of the orchestrator for each
  level from 0 to the finest, with the sweeper that \<open>rns_sdc_build_level\<close> builds,
  attached to its level and its encapsulation, and with freshly allocated node
  solutions; no sweeper above the finest level. \<open>fresh P s\<close>: they are those built
  on the mesh that \<open>s\<close> has.
\<close>

definition rebuilt_for :: "'v provider \<Rightarrow> 'v amr \<Rightarrow> 'v sdcamr \<Rightarrow> bool" where
  "rebuilt_for P a s =
     (mg_nlevels s = max 0 (finest_level a + 1)
      \<and> (\<forall>k \<in> set [0..finest_level a]. \<exists>sw0. rns_sdc_build_level k = Some sw0
            \<and> lookup (sweepers s) k = Some (Some (allocated P a k sw0)))
      \<and> (\<forall>k \<in> set [0..max_level a]. k \<notin> set [0..finest_level a]
            \<longrightarrow> lookup (sweepers s) k = Some None))"

definition fresh :: "'v provider \<Rightarrow> 'v sdcamr \<Rightarrow> bool" where
  "fresh P s = (\<exists>a. same_mesh a (amr s) \<and> rebuilt_for P a s)"

text \<open>
  The seeding loop, stopped before the iteration of the level \<open>lev\<close> and the state
  type \<open>st\<close>.
\<close>

definition seed_upto :: "'v provider \<Rightarrow> real \<Rightarrow> int \<Rightarrow> nat \<Rightarrow> 'v sdcamr \<Rightarrow> 'v sdcamr option" where
  "seed_upto P time lev st s =
     do {
       c \<leftarrow> forM [0..lev - 1] (seed_level P time) s;
       forM [0..<st] (seed_state P time lev) c
     }"

subsection \<open>A small hierarchy to run the controller on\<close>

text \<open>
  Two levels with one state type each. The mesh provider regrids level 0 once its
  sub-step counter has reached 1, and the regrid toggles the finest level between
  0 and 1; the boundary fill writes 7 into the ghost layers.
\<close>

definition fld :: "nat \<Rightarrow> nat \<Rightarrow> nat multifab" where
  "fld g v = \<lparr>nComp = 1, nGrow = g, dat = (\<lambda>c d. v)\<rparr>"

definition P0 :: "nat provider" where
  "P0 = \<lparr>okToRegrid = (\<lambda>a i. case lookup (level_count a) i of Some c \<Rightarrow> 1 \<le> c | None \<Rightarrow> False),
         Amr_regrid = (\<lambda>a i time ini. (if finest_level a = 0 then 1 else 0, amr_level a)),
         computeNewDt = (\<lambda>a st. dt_level a),
         fill_boundary = (\<lambda>a lev U time ty. U\<lparr>dat := (\<lambda>c g. if g = 0 then dat U c g else 7)\<rparr>),
         avgDown = (\<lambda>a lev G F. G\<lparr>dat := dat F\<rparr>),
         build_encap = (\<lambda>a lev. fld 1 0),
         sdc_mg_spread = (\<lambda>s time dt fl lev m. fld 1 1),
         sdc_mg_sweep = (\<lambda>s time dt fl lev m. fld 1 (2 + m))\<rparr>"

definition a0 :: "nat amr" where
  "a0 = \<lparr>max_level = 1, finest_level = 0,
         amr_level = [\<lparr>new_data = [fld 1 5]\<rparr>, \<lparr>new_data = [fld 1 6]\<rparr>],
         level_steps = [0, 0], level_count = [0, 0], dt_level = [1, 1],
         blockingFactor = (\<lambda>i. 4)\<rparr>"

definition s0 :: "nat sdcamr" where
  "s0 = \<lparr>amr = a0, max_iters = 2, max_trefs = 3, sweepers = [None, None],
         encaps = [None, None], mg_nlevels = 0, trace = []\<rparr>"

text \<open>The same controller on a hierarchy whose two levels are in use.\<close>

definition s0_two :: "nat sdcamr" where
  "s0_two = s0\<lparr>amr := a0\<lparr>finest_level := 1\<rparr>\<rparr>"

text \<open>Three calls of the driving loop, and a mesh provider that never regrids.\<close>

definition cs0 :: "call list" where
  "cs0 = [Step 0 0 1 1 10, Step 0 1 1 1 10, Regrid 0 2 False]"

definition P1 :: "nat provider" where
  "P1 = P0\<lparr>okToRegrid := (\<lambda>a i. False)\<rparr>"

text \<open>A mesh provider whose regrid leaves the mesh as it is.\<close>

definition P2 :: "nat provider" where
  "P2 = P0\<lparr>Amr_regrid := (\<lambda>a i time ini. (finest_level a, amr_level a))\<rparr>"

text \<open>The controller on a hierarchy whose level 0 has two state types.\<close>

definition s0_st2 :: "nat sdcamr" where
  "s0_st2 = s0\<lparr>amr := a0\<lparr>amr_level := [\<lparr>new_data = [fld 1 5, fld 1 8]\<rparr>, \<lparr>new_data = [fld 1 6]\<rparr>]\<rparr>\<rparr>"

section \<open>The properties\<close>

subsection \<open>Node counts\<close>

lemma c_int_Some: "c_int x = Some y \<Longrightarrow> y = x"
  by (simp add: c_int_def split: if_splits)

lemma rns_nnodes_formula:
  "rns_sdc_build_level lev = Some sw \<Longrightarrow> 0 \<le> lev \<Longrightarrow> nnodes sw = 1 + (3 - 1) * 2 ^ nat lev"
  by (auto simp: rns_sdc_build_level_def int_pow_def Let_def
      split: bind_splits dest!: c_int_Some)

subsection \<open>Restriction\<close>

lemma restrict_solution:
  "kind state = SDC_SOLUTION \<Longrightarrow>
     mlsdc_amr_restrict P a F G state ctxF ctxG =
       \<lparr>UF = fill_boundary P a ctxF F (t state) use_FillBoundary,
        UG = fill_boundary P a ctxG
               (avgDown P a ctxG G (fill_boundary P a ctxF F (t state) use_FillBoundary))
               (t state) use_FillBoundary,
        calls = [Ev_fill_boundary ctxF use_FillBoundary, Ev_avgDown ctxG,
                 Ev_fill_boundary ctxG use_FillBoundary]\<rparr>"
  by (simp add: mlsdc_amr_restrict_def)

lemma restrict_other:
  "kind state \<noteq> SDC_SOLUTION \<Longrightarrow>
     mlsdc_amr_restrict P a F G state ctxF ctxG =
       \<lparr>UF = F, UG = avgDown P a ctxG G F, calls = [Ev_avgDown ctxG]\<rparr>"
  by (simp add: mlsdc_amr_restrict_def)

text \<open>
  C3. \<open>mlsdc_amr_restrict\<close> fills the boundary of the fine field before the
  average-down and of the coarse field after it when the state is a solution, and
  only then: for any other kind its only call is the average-down, on the fields as
  they came. The average-down is made exactly once in both cases.
\<close>

theorem restrict_fills_iff_solution:
  "let x = mlsdc_amr_restrict P a F G state ctxF ctxG in
     (kind state = SDC_SOLUTION \<longrightarrow>
        calls x = [Ev_fill_boundary ctxF use_FillBoundary, Ev_avgDown ctxG,
                   Ev_fill_boundary ctxG use_FillBoundary]
      \<and> UF x = fill_boundary P a ctxF F (t state) use_FillBoundary
      \<and> UG x = fill_boundary P a ctxG (avgDown P a ctxG G (UF x)) (t state) use_FillBoundary)
   \<and> (kind state \<noteq> SDC_SOLUTION \<longrightarrow>
        calls x = [Ev_avgDown ctxG] \<and> UF x = F \<and> UG x = avgDown P a ctxG G F)
   \<and> ((\<exists>e \<in> set (calls x). is_fill e) \<longleftrightarrow> kind state = SDC_SOLUTION)
   \<and> length (filter (\<lambda>e. e = Ev_avgDown ctxG) (calls x)) = 1"
proof (cases "kind state = SDC_SOLUTION")
  case True
  then show ?thesis by (simp add: restrict_solution is_fill_def)
next
  case False
  then show ?thesis by (simp add: restrict_other is_fill_def)
qed

theorem restrict_fills_iff_solution_witness:
  "calls (mlsdc_amr_restrict P0 a0 (fld 1 8) (fld 1 9) \<lparr>t = 0, kind = SDC_SOLUTION\<rparr> 1 0)
     = [Ev_fill_boundary 1 use_FillBoundary, Ev_avgDown 0, Ev_fill_boundary 0 use_FillBoundary]
   \<and> calls (mlsdc_amr_restrict P0 a0 (fld 1 8) (fld 1 9) \<lparr>t = 0, kind = SDC_OTHER 2\<rparr> 1 0)
     = [Ev_avgDown 0]
   \<and> UF (mlsdc_amr_restrict P0 a0 (fld 1 8) (fld 1 9) \<lparr>t = 0, kind = SDC_OTHER 2\<rparr> 1 0)
     = fld 1 8"
  using restrict_fills_iff_solution[of P0 a0 "fld 1 8" "fld 1 9" "\<lparr>t = 0, kind = SDC_SOLUTION\<rparr>" 1 0]
    restrict_fills_iff_solution[of P0 a0 "fld 1 8" "fld 1 9" "\<lparr>t = 0, kind = SDC_OTHER 2\<rparr>" 1 0]
  by (simp add: Let_def)

subsection \<open>The constructor\<close>

lemma check_blocking_iff:
  "check_blocking bf xs =
     (if \<exists>i \<in> set xs. bf i < 4
      then Some (Abort ''For AMR runs, set blocking_factor to at least 4.'') else None)"
  by (induction xs) auto

text \<open>
  C7. With \<open>max_level > 0\<close>, the constructor aborts with the configuration error
  as soon as one level from 0 to \<open>max_level\<close> has a blocking factor below 4: it
  returns no controller, so nothing can be stepped. It returns one when every
  blocking factor is at least 4, and with \<open>max_level = 0\<close> it returns one whatever
  the blocking factors are.
\<close>

theorem ctor_blocking_factor:
  "(0 < max_level a \<and> (\<exists>i. 0 \<le> i \<and> i \<le> max_level a \<and> blockingFactor a i < 4)
      \<longrightarrow> SDCAmr_ctor a q_iters q_trefs
            = Inl (Abort ''For AMR runs, set blocking_factor to at least 4.''))
   \<and> (0 < max_level a \<and> (\<forall>i. 0 \<le> i \<and> i \<le> max_level a \<longrightarrow> 4 \<le> blockingFactor a i)
      \<longrightarrow> (\<exists>s. SDCAmr_ctor a q_iters q_trefs = Inr s))
   \<and> (max_level a = 0 \<longrightarrow> (\<exists>s. SDCAmr_ctor a q_iters q_trefs = Inr s))"
proof (intro conjI impI)
  assume h: "0 < max_level a \<and> (\<exists>i. 0 \<le> i \<and> i \<le> max_level a \<and> blockingFactor a i < 4)"
  then have "\<exists>i \<in> set [0..max_level a]. blockingFactor a i < 4" by auto
  then have "check_blocking (blockingFactor a) [0..max_level a]
      = Some (Abort ''For AMR runs, set blocking_factor to at least 4.'')"
    by (simp only: check_blocking_iff if_True)
  with h show "SDCAmr_ctor a q_iters q_trefs
      = Inl (Abort ''For AMR runs, set blocking_factor to at least 4.'')"
    by (simp add: SDCAmr_ctor_def)
next
  assume h: "0 < max_level a \<and> (\<forall>i. 0 \<le> i \<and> i \<le> max_level a \<longrightarrow> 4 \<le> blockingFactor a i)"
  then have "\<not> (\<exists>i \<in> set [0..max_level a]. blockingFactor a i < 4)" by auto
  then have "check_blocking (blockingFactor a) [0..max_level a] = None"
    by (simp only: check_blocking_iff if_False)
  with h show "\<exists>s. SDCAmr_ctor a q_iters q_trefs = Inr s"
    by (simp add: SDCAmr_ctor_def)
next
  assume "max_level a = 0"
  then show "\<exists>s. SDCAmr_ctor a q_iters q_trefs = Inr s"
    by (simp add: SDCAmr_ctor_def)
qed

theorem ctor_blocking_factor_witness:
  "SDCAmr_ctor (a0\<lparr>blockingFactor := (\<lambda>i. if i = 1 then 2 else 4)\<rparr>) None None
     = Inl (Abort ''For AMR runs, set blocking_factor to at least 4.'')
   \<and> (\<exists>s. SDCAmr_ctor a0 None None = Inr s)
   \<and> (\<exists>s. SDCAmr_ctor (a0\<lparr>max_level := 0, blockingFactor := (\<lambda>i. 2)\<rparr>) None None = Inr s)"
proof -
  have 1: "\<exists>i. 0 \<le> i \<and> i \<le> (1::int) \<and> (if i = 1 then 2 else (4::int)) < 4"
    by (rule exI[of _ 1]) simp
  show ?thesis
    using ctor_blocking_factor[of "a0\<lparr>blockingFactor := (\<lambda>i. if i = 1 then 2 else 4)\<rparr>" None None]
      ctor_blocking_factor[of a0 None None]
      ctor_blocking_factor[of "a0\<lparr>max_level := 0, blockingFactor := (\<lambda>i. 2)\<rparr>" None None]
      1
    by (simp add: a0_def)
qed

subsection \<open>The phases of a step\<close>

lemma timeStep_parts:
  assumes "timeStep P level time iteration niter stop_time s = Some s'"
  obtains sb s3 s4 s5 s6 s7 where
    "regrid_phase P level time stop_time s = Some sb" and
    "seeding P time sb = Some s3" and
    "set_times time s3 = Some s4" and
    "spread P time s4 = Some s5" and
    "sweeping P time s5 = Some s6" and
    "finalizing s6 = Some s7" and
    "bump_counters level s7 = Some s'"
  using assms unfolding timeStep_def timeStep_begin_def bind_eq_Some_conv by blast

lemma regrid_phase_parts:
  assumes "regrid_phase P level time stop_time s = Some sb"
  obtains p s1 where
    "lookup (sweepers s) 0 = Some p" and
    "p = None \<longrightarrow> rebuild_mlsdc P s = Some s1" and
    "p \<noteq> None \<longrightarrow> s1 = s" and
    "amr s1 = amr s" and
    "max_iters s1 = max_iters s" and
    "trace s1 = trace s @ (if lookup (sweepers s) 0 = Some None then [Ev_rebuild_mlsdc] else [])" and
    "regrid_loop P time stop_time level (lev_top0 s) s1 = Some sb"
proof -
  from assms obtain p s1 where
    p: "lookup (sweepers s) 0 = Some p" and
    1: "(case p of None \<Rightarrow> rebuild_mlsdc P s | Some _ \<Rightarrow> Some s) = Some s1" and
    2: "regrid_loop P time stop_time level
          (min (finest_level (amr s1)) (max_level (amr s1) - 1)) s1 = Some sb"
    unfolding regrid_phase_def Let_def bind_eq_Some_conv by blast
  have a: "amr s1 = amr s \<and> max_iters s1 = max_iters s
      \<and> trace s1 = trace s @ (if lookup (sweepers s) 0 = Some None then [Ev_rebuild_mlsdc] else [])"
  proof (cases p)
    case None
    with 1 have "rebuild_mlsdc P s = Some s1" by simp
    from rebuild_mlsdc_amr[OF this] p None show ?thesis by simp
  next
    case (Some x)
    with 1 p show ?thesis by simp
  qed
  from 2 a have l: "regrid_loop P time stop_time level (lev_top0 s) s1 = Some sb"
    by (simp only: lev_top0_def)
  have n: "p = None \<longrightarrow> rebuild_mlsdc P s = Some s1" using 1 by (cases p) simp_all
  have m: "p \<noteq> None \<longrightarrow> s1 = s" using 1 by (cases p) simp_all
  from p n m a l that show ?thesis by blast
qed

lemma regrid_body_skip:
  "\<not> okToRegrid P (amr s) i \<Longrightarrow> regrid_body P time stop_time i s = Some s"
  by (simp add: regrid_body_def)

lemma regrid_loop_none:
  "\<forall>j \<in> set [i..lev_top]. \<not> okToRegrid P (amr s) j \<Longrightarrow>
     regrid_loop P time stop_time i lev_top s = Some s"
proof (induction P time stop_time i lev_top s rule: regrid_loop.induct)
  case (1 P time stop_time i lev_top s)
  show ?case
  proof (cases "i \<le> lev_top")
    case False
    then show ?thesis by simp
  next
    case True
    with "1.prems" have "\<not> okToRegrid P (amr s) i" by simp
    then have b: "regrid_body P time stop_time i s = Some s" by (rule regrid_body_skip)
    have "\<forall>j \<in> set [i + 1..lev_top]. \<not> okToRegrid P (amr s) j" using "1.prems" by simp
    with "1.IH"[OF True b] have "regrid_loop P time stop_time (i + 1) lev_top s = Some s"
      by simp
    with True b show ?thesis by simp
  qed
qed

lemma regrid_phase_none:
  assumes "no_regrid P level s"
  shows "lookup (sweepers s) 0 = Some (Some sw) \<Longrightarrow> regrid_phase P level time stop_time s = Some s"
    and "regrid_phase P level time stop_time s = Some sb \<Longrightarrow> amr sb = amr s"
    and "regrid_phase P level time stop_time s = Some sb \<Longrightarrow>
           trace sb = trace s @ (if lookup (sweepers s) 0 = Some None then [Ev_rebuild_mlsdc] else [])
           \<and> max_iters sb = max_iters s"
proof -
  have n: "\<forall>j \<in> set [level..lev_top0 s]. \<not> okToRegrid P (amr s) j"
    using assms by (simp add: no_regrid_def)
  show "regrid_phase P level time stop_time s = Some s" if "lookup (sweepers s) 0 = Some (Some sw)"
    using that regrid_loop_none[OF n, of time stop_time]
    by (simp add: regrid_phase_def lev_top0_def)
  {
    assume r: "regrid_phase P level time stop_time s = Some sb"
    from r obtain s1 where
      a: "amr s1 = amr s" and
      m: "max_iters s1 = max_iters s" and
      t: "trace s1 = trace s @ (if lookup (sweepers s) 0 = Some None then [Ev_rebuild_mlsdc] else [])" and
      2: "regrid_loop P time stop_time level (lev_top0 s) s1 = Some sb"
      by (rule regrid_phase_parts)
    have "regrid_loop P time stop_time level (lev_top0 s) s1 = Some s1"
      by (rule regrid_loop_none) (simp add: a n)
    with 2 have e: "sb = s1" by simp
    show "amr sb = amr s" using e a by simp
    show "trace sb = trace s @ (if lookup (sweepers s) 0 = Some None then [Ev_rebuild_mlsdc] else [])
           \<and> max_iters sb = max_iters s"
      using e m t by simp
  }
qed

subsection \<open>The log of a step\<close>

lemma emitsI:
  assumes "\<And>s s'. f s = Some s' \<Longrightarrow> max_iters s' = max_iters s"
    and "\<And>s s'. f s = Some s' \<Longrightarrow> \<exists>es. trace s' = trace s @ es \<and> list_all A es"
  shows "emits A f"
  using assms unfolding emits_def by blast

lemma emitsD:
  assumes "emits A f" and "f s = Some s'"
  obtains es where "trace s' = trace s @ es" and "list_all A es" and "max_iters s' = max_iters s"
  using assms unfolding emits_def by blast

lemma emits_forM:
  assumes "\<And>x. emits A (f x)"
  shows "emits A (forM xs f)"
proof (rule emitsI)
  fix s s' assume r: "forM xs f s = Some s'"
  show "max_iters s' = max_iters s"
  proof (rule forM_invariant[OF r, where I="\<lambda>a. max_iters a = max_iters s"])
    fix x a b assume "max_iters a = max_iters s" and "f x a = Some b"
    with assms[of x] show "max_iters b = max_iters s" unfolding emits_def by fastforce
  qed simp
  show "\<exists>es. trace s' = trace s @ es \<and> list_all A es"
    using r
  proof (rule forM_invariant[where I="\<lambda>a. \<exists>es. trace a = trace s @ es \<and> list_all A es"])
    show "\<exists>es. trace s = trace s @ es \<and> list_all A es" by simp
  next
    fix x a b assume "\<exists>es. trace a = trace s @ es \<and> list_all A es" and "f x a = Some b"
    then obtain es es' where "trace a = trace s @ es" "list_all A es"
      "trace b = trace a @ es'" "list_all A es'"
      using assms[of x] by (auto elim: emitsD)
    then have "trace b = trace s @ (es @ es') \<and> list_all A (es @ es')" by simp
    then show "\<exists>es. trace b = trace s @ es \<and> list_all A es" by blast
  qed
qed

lemma put_new_data_log:
  "put_new_data lev st U s = Some s' \<Longrightarrow> trace s' = trace s \<and> max_iters s' = max_iters s"
  by (auto simp: put_new_data_def split: bind_splits)

lemma put_Q_log:
  "put_Q lev m U s = Some s' \<Longrightarrow> trace s' = trace s \<and> max_iters s' = max_iters s"
  by (auto simp: put_Q_def split: bind_splits)

lemma seed_state_log:
  "seed_state P time lev st s = Some s' \<Longrightarrow>
     trace s' = trace s @ [Ev_fill_boundary lev (fill_boundary_type lev), Ev_copy_to_Q0 lev st]
     \<and> max_iters s' = max_iters s"
  by (auto simp: seed_state_def Let_def split: bind_splits dest!: put_new_data_log put_Q_log)

lemma final_state_log:
  "final_state lev st s = Some s' \<Longrightarrow>
     trace s' = trace s @ [Ev_copy_from_Qend lev st] \<and> max_iters s' = max_iters s"
  by (auto simp: final_state_def Let_def split: bind_splits dest!: put_new_data_log)

lemma set_time_state_log:
  "set_time_state time lev st s = Some s' \<Longrightarrow>
     trace s' = trace s @ [Ev_setTimeLevel lev st] \<and> max_iters s' = max_iters s"
  by (auto simp: set_time_state_def split: bind_splits)

lemma emits_seeding: "emits is_step_ev (seeding P time)"
proof -
  have 1: "emits is_step_ev (seed_state P time lev st)" for lev st
    by (rule emitsI) (auto dest!: seed_state_log simp: is_step_ev_def)
  have 2: "emits is_step_ev (seed_level P time lev)" for lev
    using emits_forM[of is_step_ev "seed_state P time lev", OF 1]
    unfolding emits_def seed_level_def by (auto split: bind_splits)
  show ?thesis
    using emits_forM[of is_step_ev "seed_level P time", OF 2]
    unfolding emits_def seeding_def by auto
qed

lemma emits_set_times: "emits is_step_ev (set_times time)"
proof -
  have 1: "emits is_step_ev (set_time_state time lev st)" for lev st
    by (rule emitsI) (auto dest!: set_time_state_log simp: is_step_ev_def)
  have 2: "emits is_step_ev (set_time_level time lev)" for lev
    using emits_forM[of is_step_ev "set_time_state time lev", OF 1]
    unfolding emits_def set_time_level_def by (auto split: bind_splits)
  show ?thesis
    using emits_forM[of is_step_ev "set_time_level time", OF 2]
    unfolding emits_def set_times_def by auto
qed

lemma emits_finalizing: "emits is_step_ev finalizing"
proof -
  have 1: "emits is_step_ev (final_state lev st)" for lev st
    by (rule emitsI) (auto dest!: final_state_log simp: is_step_ev_def)
  have 2: "emits is_step_ev (final_level lev)" for lev
    using emits_forM[of is_step_ev "final_state lev", OF 1]
    unfolding emits_def final_level_def by (auto split: bind_splits)
  show ?thesis
    using emits_forM[of is_step_ev final_level, OF 2]
    unfolding emits_def finalizing_def by auto
qed

lemma emits_spread: "emits is_step_ev (spread P time)"
  by (rule emitsI) (auto simp: spread_def write_nodes_def is_step_ev_def split: bind_splits)

lemma emits_bump_counters: "emits is_step_ev (bump_counters level)"
  by (rule emitsI) (auto simp: bump_counters_def split: bind_splits)

text \<open>The sweeps.\<close>

lemma sweep_log:
  "sweep P time k s = Some s' \<Longrightarrow>
     trace s' = trace s @ [Ev_sdc_mg_sweep (sweep_flags s k)] \<and> max_iters s' = max_iters s"
  by (auto simp: sweep_def mg_sweep_def write_nodes_def split: bind_splits)

lemma sweeping_log:
  assumes "sweeping P time s = Some s'"
  shows "trace s' = trace s @ sweep_events (max_iters s) \<and> max_iters s' = max_iters s"
proof -
  let ?ev = "\<lambda>k. Ev_sdc_mg_sweep (if k = max_iters s - 1 then SDC_MG_LAST_SWEEP else NO_FLAGS)"
  have "trace s' = trace s @ map ?ev [0..max_iters s - 1] \<and> max_iters s' = max_iters s"
    using assms[unfolded sweeping_def]
  proof (rule forM_indexed[where I="\<lambda>ys a. trace a = trace s @ map ?ev ys \<and> max_iters a = max_iters s"])
    show "trace s = trace s @ map ?ev [] \<and> max_iters s = max_iters s" by simp
  next
    fix ys x a b
    assume "trace a = trace s @ map ?ev ys \<and> max_iters a = max_iters s"
      and "sweep P time x a = Some b"
    then show "trace b = trace s @ map ?ev (ys @ [x]) \<and> max_iters b = max_iters s"
      by (auto dest!: sweep_log simp: sweep_flags_def)
  qed
  then show ?thesis by (simp add: sweep_events_def)
qed


text \<open>The regrid loop: one block of three calls for every level it regrids.\<close>

lemma regrid_body_log:
  assumes "regrid_body P time stop_time i s = Some s'"
  shows "trace s' = trace s @ (if okToRegrid P (amr s) i then regrid_block i else [])
         \<and> max_iters s' = max_iters s"
proof (cases "okToRegrid P (amr s) i")
  case False
  with assms show ?thesis by (simp add: regrid_body_def)
next
  case True
  with assms obtain s1 where
    1: "regrid P i time False s = Some s1" and
    2: "forM [i..finest_level (amr s1)] reset_count
          (s1\<lparr>amr := (amr s1)\<lparr>dt_level := computeNewDt P (amr s1) stop_time\<rparr>,
               trace := trace s1 @ [Ev_computeNewDt]\<rparr>) = Some s'"
    by (auto simp: regrid_body_def Let_def split: bind_splits)
  have "trace s' = trace s1 @ [Ev_computeNewDt] \<and> max_iters s' = max_iters s1"
    using 2 by (rule forM_invariant[where
          I="\<lambda>x. trace x = trace s1 @ [Ev_computeNewDt] \<and> max_iters x = max_iters s1"])
      (auto dest: reset_count_max_level)
  with regrid_amr(2,3)[OF 1] True show ?thesis by (simp add: regrid_block_def)
qed

lemma regrid_loop_log:
  "regrid_loop P time stop_time i lev_top s = Some s' \<Longrightarrow>
     (\<exists>js. trace s' = trace s @ concat (map regrid_block js)) \<and> max_iters s' = max_iters s"
proof (induction P time stop_time i lev_top s rule: regrid_loop.induct)
  case (1 P time stop_time i lev_top s)
  show ?case
  proof (cases "i \<le> lev_top")
    case False
    with "1.prems" have "s' = s" by simp
    then have "trace s' = trace s @ concat (map regrid_block [])" by simp
    then show ?thesis using \<open>s' = s\<close> by blast
  next
    case True
    with "1.prems" obtain s1 where
      b: "regrid_body P time stop_time i s = Some s1" and
      r: "regrid_loop P time stop_time (i + 1)
            (if finest_level (amr s) > finest_level (amr s1)
             then min (finest_level (amr s1)) (max_level (amr s1) - 1) else lev_top) s1 = Some s'"
      by (auto split: option.splits)
    from "1.IH"[OF True b r] obtain js where
      js: "trace s' = trace s1 @ concat (map regrid_block js)" "max_iters s' = max_iters s1"
      by blast
    from regrid_body_log[OF b] js
    have "trace s' = trace s @ concat (map regrid_block
            ((if okToRegrid P (amr s) i then [i] else []) @ js))"
      by simp
    moreover have "max_iters s' = max_iters s" using regrid_body_log[OF b] js by simp
    ultimately show ?thesis by blast
  qed
qed

text \<open>The log of a whole step.\<close>

lemma timeStep_log:
  assumes "timeStep P level time iteration niter stop_time s = Some s'"
  shows "\<exists>js es1 es2.
           trace s' = trace s
              @ (if lookup (sweepers s) 0 = Some None then [Ev_rebuild_mlsdc] else [])
              @ concat (map regrid_block js)
              @ es1 @ sweep_events (max_iters s) @ es2
           \<and> list_all is_step_ev es1 \<and> list_all is_step_ev es2"
proof -
  from assms obtain p s1 s2 s3 s4 s5 s6 s7 where
    p: "lookup (sweepers s) 0 = Some p" and
    1: "(case p of None \<Rightarrow> rebuild_mlsdc P s | Some _ \<Rightarrow> Some s) = Some s1" and
    2: "regrid_loop P time stop_time level
          (min (finest_level (amr s1)) (max_level (amr s1) - 1)) s1 = Some s2" and
    3: "seeding P time s2 = Some s3" and
    4: "set_times time s3 = Some s4" and
    5: "spread P time s4 = Some s5" and
    6: "sweeping P time s5 = Some s6" and
    7: "finalizing s6 = Some s7" and
    8: "bump_counters level s7 = Some s'"
    unfolding timeStep_def timeStep_begin_def regrid_phase_def Let_def bind_eq_Some_conv by blast
  have t1: "trace s1 = trace s @ (if lookup (sweepers s) 0 = Some None then [Ev_rebuild_mlsdc] else [])"
    and m1: "max_iters s1 = max_iters s"
  proof -
    show "trace s1 = trace s @ (if lookup (sweepers s) 0 = Some None then [Ev_rebuild_mlsdc] else [])"
    proof (cases p)
      case None
      with 1 have "rebuild_mlsdc P s = Some s1" by simp
      from rebuild_mlsdc_amr[OF this] p None show ?thesis by simp
    next
      case (Some a)
      with 1 p show ?thesis by simp
    qed
    show "max_iters s1 = max_iters s"
    proof (cases p)
      case None
      with 1 have "rebuild_mlsdc P s = Some s1" by simp
      from rebuild_mlsdc_amr[OF this] show ?thesis by simp
    next
      case (Some a)
      with 1 show ?thesis by simp
    qed
  qed
  from regrid_loop_log[OF 2] obtain js where
    t2: "trace s2 = trace s1 @ concat (map regrid_block js)" and m2: "max_iters s2 = max_iters s1"
    by blast
  from emits_seeding 3 obtain e3 where
    t3: "trace s3 = trace s2 @ e3" "list_all is_step_ev e3" and m3: "max_iters s3 = max_iters s2"
    by (rule emitsD)
  from emits_set_times 4 obtain e4 where
    t4: "trace s4 = trace s3 @ e4" "list_all is_step_ev e4" and m4: "max_iters s4 = max_iters s3"
    by (rule emitsD)
  from emits_spread 5 obtain e5 where
    t5: "trace s5 = trace s4 @ e5" "list_all is_step_ev e5" and m5: "max_iters s5 = max_iters s4"
    by (rule emitsD)
  from sweeping_log[OF 6]
  have t6: "trace s6 = trace s5 @ sweep_events (max_iters s5)" and m6: "max_iters s6 = max_iters s5"
    by simp_all
  from emits_finalizing 7 obtain e7 where
    t7: "trace s7 = trace s6 @ e7" "list_all is_step_ev e7"
    by (rule emitsD)
  from emits_bump_counters 8 obtain e8 where
    t8: "trace s' = trace s7 @ e8" "list_all is_step_ev e8"
    by (rule emitsD)
  have "trace s' = trace s
          @ (if lookup (sweepers s) 0 = Some None then [Ev_rebuild_mlsdc] else [])
          @ concat (map regrid_block js)
          @ (e3 @ e4 @ e5) @ sweep_events (max_iters s) @ (e7 @ e8)"
  proof -
    have "max_iters s5 = max_iters s" by (simp only: m5 m4 m3 m2 m1)
    then show ?thesis
      by (simp only: t8(1) t7(1) t6 t5(1) t4(1) t3(1) t2 t1 append_assoc)
  qed
  moreover have "list_all is_step_ev (e3 @ e4 @ e5)" "list_all is_step_ev (e7 @ e8)"
    using t3 t4 t5 t7 t8 by simp_all
  ultimately show ?thesis by blast
qed

text \<open>The log of a step from the end of its regrid loop.\<close>

lemma after_regrid_log:
  assumes "seeding P time sb = Some s3" and "set_times time s3 = Some s4"
    and "spread P time s4 = Some s5" and "sweeping P time s5 = Some s6"
    and "finalizing s6 = Some s7" and "bump_counters level s7 = Some s'"
  shows "\<exists>es1 es2. trace s' = trace sb @ es1 @ sweep_events (max_iters sb) @ es2
           \<and> list_all is_step_ev es1 \<and> list_all is_step_ev es2"
proof -
  from emits_seeding assms(1) obtain e3 where
    t3: "trace s3 = trace sb @ e3" "list_all is_step_ev e3" and m3: "max_iters s3 = max_iters sb"
    by (rule emitsD)
  from emits_set_times assms(2) obtain e4 where
    t4: "trace s4 = trace s3 @ e4" "list_all is_step_ev e4" and m4: "max_iters s4 = max_iters s3"
    by (rule emitsD)
  from emits_spread assms(3) obtain e5 where
    t5: "trace s5 = trace s4 @ e5" "list_all is_step_ev e5" and m5: "max_iters s5 = max_iters s4"
    by (rule emitsD)
  from sweeping_log[OF assms(4)]
  have t6: "trace s6 = trace s5 @ sweep_events (max_iters s5)" by simp
  from emits_finalizing assms(5) obtain e7 where
    t7: "trace s7 = trace s6 @ e7" "list_all is_step_ev e7"
    by (rule emitsD)
  from emits_bump_counters assms(6) obtain e8 where
    t8: "trace s' = trace s7 @ e8" "list_all is_step_ev e8"
    by (rule emitsD)
  have "trace s' = trace sb @ (e3 @ e4 @ e5) @ sweep_events (max_iters sb) @ (e7 @ e8)"
  proof -
    have "max_iters s5 = max_iters sb" by (simp only: m5 m4 m3)
    then show ?thesis
      by (simp only: t8(1) t7(1) t6 t5(1) t4(1) t3(1) append_assoc)
  qed
  moreover have "list_all is_step_ev (e3 @ e4 @ e5)" "list_all is_step_ev (e7 @ e8)"
    using t3 t4 t5 t7 t8 by simp_all
  ultimately show ?thesis by blast
qed

subsection \<open>Regrids and rebuilds\<close>

lemma stale_free_append:
  "stale_free d (xs @ ys) = (stale_free d xs \<and> stale_free (stale_after d xs) ys)"
  by (induction d xs rule: stale_free.induct) auto

lemma stale_after_append:
  "stale_after d (xs @ ys) = stale_after (stale_after d xs) ys"
  by (induction d xs rule: stale_after.induct) auto

lemma stale_blocks:
  "stale_free d (concat (map regrid_block js))"
  "stale_after d (concat (map regrid_block js)) = (if js = [] then d else False)"
  by (induction js arbitrary: d) (auto simp: regrid_block_def)

lemma stale_step_evs:
  assumes "list_all is_step_ev es"
  shows "stale_after d es = d" and "stale_free False es"
  using assms by (induction es arbitrary: d; auto simp: is_step_ev_def split: event.splits)+

lemma stale_sweeps: "stale_after d (sweep_events n) = d" "stale_free d (sweep_events n)"
proof -
  have "stale_after d (map (\<lambda>k. Ev_sdc_mg_sweep (f k)) ks) = d
      \<and> stale_free d (map (\<lambda>k. Ev_sdc_mg_sweep (f k)) ks)"
    for f :: "int \<Rightarrow> mg_flags" and ks
    by (induction ks) auto
  from this[of "\<lambda>k. if k = n - 1 then SDC_MG_LAST_SWEEP else NO_FLAGS" "[0..n - 1]"]
  show "stale_after d (sweep_events n) = d" "stale_free d (sweep_events n)"
    unfolding sweep_events_def by simp_all
qed

lemma rebuilds_blocks:
  "length (filter (\<lambda>e. e = Ev_rebuild_mlsdc) (concat (map regrid_block js))) = length js"
  "length (filter is_regrid (concat (map regrid_block js))) = length js"
  by (induction js) (auto simp: regrid_block_def is_regrid_def)

lemma rebuilds_step_evs:
  assumes "list_all is_step_ev es"
  shows "filter (\<lambda>e. e = Ev_rebuild_mlsdc) es = []" and "filter is_regrid es = []"
  using assms by (induction es; auto simp: is_step_ev_def is_regrid_def split: event.splits)+

lemma rebuilds_sweeps:
  "filter (\<lambda>e. e = Ev_rebuild_mlsdc) (sweep_events n) = []"
  "filter is_regrid (sweep_events n) = []"
  by (auto simp: sweep_events_def is_regrid_def filter_empty_conv)

lemma timeStep_stale:
  assumes "timeStep P level time iteration niter stop_time s = Some s'"
  shows "\<exists>es. trace s' = trace s @ es \<and> stale_free False es \<and> \<not> stale_after False es"
proof -
  from timeStep_log[OF assms] obtain js es1 es2 where
    t: "trace s' = trace s
              @ (if lookup (sweepers s) 0 = Some None then [Ev_rebuild_mlsdc] else [])
              @ concat (map regrid_block js)
              @ es1 @ sweep_events (max_iters s) @ es2"
    and e: "list_all is_step_ev es1" "list_all is_step_ev es2"
    by blast
  let ?es = "(if lookup (sweepers s) 0 = Some None then [Ev_rebuild_mlsdc] else [])
              @ concat (map regrid_block js)
              @ es1 @ sweep_events (max_iters s) @ es2"
  have "stale_free False ?es \<and> \<not> stale_after False ?es"
    using e by (simp add: stale_free_append stale_after_append stale_blocks stale_step_evs stale_sweeps)
  with t show ?thesis by blast
qed

lemma regrid_stale:
  assumes "regrid P lbase time initial s = Some s'"
  shows "\<exists>es. trace s' = trace s @ es \<and> stale_free False es \<and> \<not> stale_after False es"
  using regrid_amr(2)[OF assms] by simp

lemma run_stale:
  assumes "run P cs s = Some s'"
  shows "\<exists>es. trace s' = trace s @ es \<and> stale_free False es \<and> \<not> stale_after False es"
  using assms[unfolded run_def]
proof (rule forM_invariant[where
      I="\<lambda>a. \<exists>es. trace a = trace s @ es \<and> stale_free False es \<and> \<not> stale_after False es"])
  show "\<exists>es. trace s = trace s @ es \<and> stale_free False es \<and> \<not> stale_after False es"
    by simp
next
  fix c a b
  assume "\<exists>es. trace a = trace s @ es \<and> stale_free False es \<and> \<not> stale_after False es"
    and c: "do_call P c a = Some b"
  then obtain es where es: "trace a = trace s @ es" "stale_free False es" "\<not> stale_after False es"
    by blast
  from c have "\<exists>es'. trace b = trace a @ es' \<and> stale_free False es' \<and> \<not> stale_after False es'"
    by (cases c) (auto dest: timeStep_stale regrid_stale)
  then obtain es' where "trace b = trace a @ es'" "stale_free False es'" "\<not> stale_after False es'"
    by blast
  with es have "trace b = trace s @ (es @ es') \<and> stale_free False (es @ es')
      \<and> \<not> stale_after False (es @ es')"
    by (simp add: stale_free_append stale_after_append)
  then show "\<exists>es. trace b = trace s @ es \<and> stale_free False es \<and> \<not> stale_after False es"
    by blast
qed

subsection \<open>The sweeps of a step\<close>










subsection \<open>The counters\<close>

lemma counts_reset_refl: "counts_reset s s"
  by (simp add: counts_reset_def)

lemma counts_reset_trans: "counts_reset a b \<Longrightarrow> counts_reset b c \<Longrightarrow> counts_reset a c"
  unfolding counts_reset_def by (metis (no_types, lifting))

lemma same_counters_reset: "same_counters s s' \<Longrightarrow> counts_reset s s'"
  by (simp add: counts_reset_def same_counters_def)

lemma forM_same_counters:
  assumes "forM xs f s = Some s'" and "\<And>x a b. f x a = Some b \<Longrightarrow> same_counters a b"
  shows "same_counters s s'"
  using assms(1)
proof (rule forM_invariant[where I="same_counters s"])
  show "same_counters s s" by (simp add: same_counters_def)
next
  fix x a b assume "same_counters s a" and "f x a = Some b"
  with assms(2)[of x a b] show "same_counters s b" by (simp add: same_counters_def)
qed

lemma put_new_data_counters: "put_new_data lev st U s = Some s' \<Longrightarrow> same_counters s s'"
  by (auto simp: put_new_data_def same_counters_def split: bind_splits)

lemma put_Q_counters: "put_Q lev m U s = Some s' \<Longrightarrow> same_counters s s'"
  by (auto simp: put_Q_def same_counters_def split: bind_splits)

lemma seed_state_counters: "seed_state P time lev st s = Some s' \<Longrightarrow> same_counters s s'"
  by (auto simp: seed_state_def Let_def same_counters_def split: bind_splits
      dest!: put_new_data_counters put_Q_counters)

lemma final_state_counters: "final_state lev st s = Some s' \<Longrightarrow> same_counters s s'"
  by (auto simp: final_state_def Let_def same_counters_def split: bind_splits
      dest!: put_new_data_counters)

lemma set_time_state_counters: "set_time_state time lev st s = Some s' \<Longrightarrow> same_counters s s'"
  by (auto simp: set_time_state_def same_counters_def split: bind_splits)

lemma seeding_counters: "seeding P time s = Some s' \<Longrightarrow> same_counters s s'"
  unfolding seeding_def
  by (erule forM_same_counters)
    (auto simp: seed_level_def split: bind_splits
      elim!: forM_same_counters dest: seed_state_counters)

lemma set_times_counters: "set_times time s = Some s' \<Longrightarrow> same_counters s s'"
  unfolding set_times_def
  by (erule forM_same_counters)
    (auto simp: set_time_level_def split: bind_splits
      elim!: forM_same_counters dest: set_time_state_counters)

lemma finalizing_counters: "finalizing s = Some s' \<Longrightarrow> same_counters s s'"
  unfolding finalizing_def
  by (erule forM_same_counters)
    (auto simp: final_level_def split: bind_splits
      elim!: forM_same_counters dest: final_state_counters)

lemma spread_counters: "spread P time s = Some s' \<Longrightarrow> same_counters s s'"
  by (auto simp: spread_def write_nodes_def same_counters_def split: bind_splits)

lemma sweeping_counters: "sweeping P time s = Some s' \<Longrightarrow> same_counters s s'"
  unfolding sweeping_def
  by (erule forM_same_counters)
    (auto simp: sweep_def mg_sweep_def write_nodes_def same_counters_def split: bind_splits)

lemma reset_count_counters: "reset_count k s = Some s' \<Longrightarrow> counts_reset s s'"
  by (auto simp: reset_count_def counts_reset_def store_def nth_list_update
      split: bind_splits if_splits)

lemma regrid_body_counters:
  assumes "regrid_body P time stop_time i s = Some s'"
  shows "counts_reset s s'"
proof (cases "okToRegrid P (amr s) i")
  case False
  with assms show ?thesis by (simp add: regrid_body_def counts_reset_refl)
next
  case True
  with assms obtain s1 where
    1: "regrid P i time False s = Some s1" and
    2: "forM [i..finest_level (amr s1)] reset_count
          (s1\<lparr>amr := (amr s1)\<lparr>dt_level := computeNewDt P (amr s1) stop_time\<rparr>,
               trace := trace s1 @ [Ev_computeNewDt]\<rparr>) = Some s'"
    by (auto simp: regrid_body_def Let_def split: bind_splits)
  let ?s2 = "s1\<lparr>amr := (amr s1)\<lparr>dt_level := computeNewDt P (amr s1) stop_time\<rparr>,
               trace := trace s1 @ [Ev_computeNewDt]\<rparr>"
  from 1 have "counts_reset s ?s2"
    by (auto simp: regrid_def Let_def counts_reset_def split: prod.splits
        dest!: rebuild_mlsdc_amr)
  moreover have "counts_reset ?s2 s'"
    using 2 by (rule forM_invariant[where I="counts_reset ?s2"])
      (auto intro: counts_reset_refl counts_reset_trans dest: reset_count_counters)
  ultimately show ?thesis by (rule counts_reset_trans)
qed

lemma regrid_loop_counters:
  "regrid_loop P time stop_time i lev_top s = Some s' \<Longrightarrow> counts_reset s s'"
proof (induction P time stop_time i lev_top s rule: regrid_loop.induct)
  case (1 P time stop_time i lev_top s)
  show ?case
  proof (cases "i \<le> lev_top")
    case False
    with "1.prems" show ?thesis by (simp add: counts_reset_refl)
  next
    case True
    with "1.prems" obtain s1 where
      b: "regrid_body P time stop_time i s = Some s1" and
      r: "regrid_loop P time stop_time (i + 1)
            (if finest_level (amr s) > finest_level (amr s1)
             then min (finest_level (amr s1)) (max_level (amr s1) - 1) else lev_top) s1 = Some s'"
      by (auto split: option.splits)
    from regrid_body_counters[OF b] "1.IH"[OF True b r] show ?thesis
      by (rule counts_reset_trans)
  qed
qed

lemma bump_counters_eq:
  assumes "bump_counters level s = Some s'"
  shows "0 \<le> level \<and> nat level < length (level_steps (amr s))
         \<and> nat level < length (level_count (amr s))
         \<and> level_steps (amr s') = (level_steps (amr s))[nat level := level_steps (amr s) ! nat level + 1]
         \<and> level_count (amr s') = (level_count (amr s))[nat level := level_count (amr s) ! nat level + 1]"
  using assms
  by (auto simp: bump_counters_def lookup_def store_def split: bind_splits if_splits)

lemma timeStep_counters:
  assumes "timeStep P level time iteration niter stop_time s = Some s'"
  shows "\<exists>s7. counts_reset s s7 \<and> bump_counters level s7 = Some s'"
proof -
  from assms obtain p s1 s2 s3 s4 s5 s6 s7 where
    p: "lookup (sweepers s) 0 = Some p" and
    1: "(case p of None \<Rightarrow> rebuild_mlsdc P s | Some _ \<Rightarrow> Some s) = Some s1" and
    2: "regrid_loop P time stop_time level
          (min (finest_level (amr s1)) (max_level (amr s1) - 1)) s1 = Some s2" and
    3: "seeding P time s2 = Some s3" and
    4: "set_times time s3 = Some s4" and
    5: "spread P time s4 = Some s5" and
    6: "sweeping P time s5 = Some s6" and
    7: "finalizing s6 = Some s7" and
    8: "bump_counters level s7 = Some s'"
    unfolding timeStep_def timeStep_begin_def regrid_phase_def Let_def bind_eq_Some_conv by blast
  have "amr s1 = amr s"
  proof (cases p)
    case None
    with 1 have "rebuild_mlsdc P s = Some s1" by simp
    from rebuild_mlsdc_amr[OF this] show ?thesis by simp
  next
    case (Some a)
    with 1 show ?thesis by simp
  qed
  then have c1: "counts_reset s s1" by (simp add: counts_reset_def)
  note c2 = regrid_loop_counters[OF 2]
  note c3 = same_counters_reset[OF seeding_counters[OF 3]]
  note c4 = same_counters_reset[OF set_times_counters[OF 4]]
  note c5 = same_counters_reset[OF spread_counters[OF 5]]
  note c6 = same_counters_reset[OF sweeping_counters[OF 6]]
  note c7 = same_counters_reset[OF finalizing_counters[OF 7]]
  have "counts_reset s s7"
    using c1 c2 c3 c4 c5 c6 c7 by (blast intro: counts_reset_trans)
  with 8 show ?thesis by blast
qed

lemma regrid_amr_eq:
  assumes "regrid P lbase time initial s = Some s'"
  shows "amr s' = (amr s)\<lparr>finest_level := fst (Amr_regrid P (amr s) lbase time initial),
                          amr_level := snd (Amr_regrid P (amr s) lbase time initial)\<rparr>"
  using assms
  by (auto simp: regrid_def Let_def split: prod.splits dest!: rebuild_mlsdc_amr)

lemma reset_count_nth:
  "reset_count k s = Some s' \<Longrightarrow>
     level_count (amr s') = (level_count (amr s))[nat k := 0] \<and> 0 \<le> k"
  by (auto simp: reset_count_def store_def split: bind_splits if_splits)

lemma reset_loop_nth:
  assumes "forM ks reset_count a = Some b"
  shows "length (level_count (amr b)) = length (level_count (amr a))"
    and "j < length (level_count (amr a)) \<Longrightarrow>
           level_count (amr b) ! j = (if int j \<in> set ks then 0 else level_count (amr a) ! j)"
proof -
  let ?I = "\<lambda>ys c. length (level_count (amr c)) = length (level_count (amr a))
      \<and> (\<forall>j < length (level_count (amr a)).
            level_count (amr c) ! j = (if int j \<in> set ys then 0 else level_count (amr a) ! j))"
  have "?I ks b"
    using assms
  proof (rule forM_indexed[where I="?I"])
    show "?I [] a" by simp
  next
    fix ys x c d
    assume c: "?I ys c" and d: "reset_count x c = Some d"
    from reset_count_nth[OF d] have
      e: "level_count (amr d) = (level_count (amr c))[nat x := 0]" and x: "0 \<le> x" by simp_all
    have "j = nat x \<longleftrightarrow> int j = x" for j using x by auto
    then show "?I (ys @ [x]) d"
      using c by (auto simp: e nth_list_update)
  qed
  then show "length (level_count (amr b)) = length (level_count (amr a))"
    and "j < length (level_count (amr a)) \<Longrightarrow>
           level_count (amr b) ! j = (if int j \<in> set ks then 0 else level_count (amr a) ! j)"
    by blast+
qed

lemma regrid_body_counts:
  assumes "regrid_body P time stop_time i s = Some s'"
  shows "length (level_count (amr s')) = length (level_count (amr s))"
    and "j < length (level_count (amr s)) \<Longrightarrow>
         level_count (amr s') ! j =
           (if okToRegrid P (amr s) i \<and> i \<le> int j
               \<and> int j \<le> fst (Amr_regrid P (amr s) i time False)
            then 0 else level_count (amr s) ! j)"
proof -
  have c: "length (level_count (amr s')) = length (level_count (amr s))
      \<and> (\<forall>j < length (level_count (amr s)).
         level_count (amr s') ! j =
           (if okToRegrid P (amr s) i \<and> i \<le> int j
               \<and> int j \<le> fst (Amr_regrid P (amr s) i time False)
            then 0 else level_count (amr s) ! j))"
  proof (cases "okToRegrid P (amr s) i")
    case False
    with assms show ?thesis by (simp add: regrid_body_def)
  next
    case True
    with assms obtain s1 where
      1: "regrid P i time False s = Some s1" and
      2: "forM [i..finest_level (amr s1)] reset_count
            (s1\<lparr>amr := (amr s1)\<lparr>dt_level := computeNewDt P (amr s1) stop_time\<rparr>,
                 trace := trace s1 @ [Ev_computeNewDt]\<rparr>) = Some s'"
      by (auto simp: regrid_body_def Let_def split: bind_splits)
    note a = regrid_amr_eq[OF 1]
    from a have f: "finest_level (amr s1) = fst (Amr_regrid P (amr s) i time False)"
      and l: "level_count (amr s1) = level_count (amr s)" by simp_all
    from reset_loop_nth[OF 2] True show ?thesis
      by (simp add: f l)
  qed
  from c show "length (level_count (amr s')) = length (level_count (amr s))" by blast
  from c show "j < length (level_count (amr s)) \<Longrightarrow>
         level_count (amr s') ! j =
           (if okToRegrid P (amr s) i \<and> i \<le> int j
               \<and> int j \<le> fst (Amr_regrid P (amr s) i time False)
            then 0 else level_count (amr s) ! j)" by blast
qed

lemma regrid_loop_below:
  "regrid_loop P time stop_time i lev_top s = Some s' \<Longrightarrow>
     length (level_count (amr s')) = length (level_count (amr s))
     \<and> (\<forall>j < length (level_count (amr s)). int j < i \<longrightarrow>
           level_count (amr s') ! j = level_count (amr s) ! j)"
proof (induction P time stop_time i lev_top s rule: regrid_loop.induct)
  case (1 P time stop_time i lev_top s)
  show ?case
  proof (cases "i \<le> lev_top")
    case False
    with "1.prems" show ?thesis by simp
  next
    case True
    with "1.prems" obtain s1 where
      b: "regrid_body P time stop_time i s = Some s1" and
      r: "regrid_loop P time stop_time (i + 1)
            (if finest_level (amr s) > finest_level (amr s1)
             then min (finest_level (amr s1)) (max_level (amr s1) - 1) else lev_top) s1 = Some s'"
      by (auto split: option.splits)
    note ih = "1.IH"[OF True b r]
    note c = regrid_body_counts[OF b]
    show ?thesis
    proof (intro conjI allI impI)
      show "length (level_count (amr s')) = length (level_count (amr s))"
        using ih c(1) by simp
    next
      fix j assume j: "j < length (level_count (amr s))" "int j < i"
      from ih j c(1) have "level_count (amr s') ! j = level_count (amr s1) ! j" by simp
      also from c(2)[OF j(1)] j(2) have "\<dots> = level_count (amr s) ! j" by simp
      finally show "level_count (amr s') ! j = level_count (amr s) ! j" .
    qed
  qed
qed

lemma regrid_phase_counts:
  assumes "regrid_phase P level time stop_time s = Some sb"
    and "0 \<le> level" and "nat level < length (level_count (amr s))"
  shows "level_count (amr sb) ! nat level =
           (if level \<le> lev_top0 s \<and> okToRegrid P (amr s) level
               \<and> level \<le> fst (Amr_regrid P (amr s) level time False)
            then 0 else level_count (amr s) ! nat level)"
proof -
  from assms(1) obtain s1 where
    a: "amr s1 = amr s" and
    2: "regrid_loop P time stop_time level (lev_top0 s) s1 = Some sb"
    by (rule regrid_phase_parts)
  show ?thesis
  proof (cases "level \<le> lev_top0 s")
    case False
    with 2 have "sb = s1" by simp
    with a False show ?thesis by simp
  next
    case True
    with 2 obtain sx lt where
      b: "regrid_body P time stop_time level s1 = Some sx" and
      r: "regrid_loop P time stop_time (level + 1) lt sx = Some sb"
      by (auto split: option.splits)
    note c = regrid_body_counts[OF b, unfolded a]
    from regrid_loop_below[OF r] c(1) assms(2,3)
    have "level_count (amr sb) ! nat level = level_count (amr sx) ! nat level" by simp
    also from c(2)[OF assms(3)] assms(2) True
    have "\<dots> = (if level \<le> lev_top0 s \<and> okToRegrid P (amr s) level
               \<and> level \<le> fst (Amr_regrid P (amr s) level time False)
            then 0 else level_count (amr s) ! nat level)" by simp
    finally show ?thesis .
  qed
qed

lemma after_regrid_counters:
  assumes "seeding P time sb = Some s3" and "set_times time s3 = Some s4"
    and "spread P time s4 = Some s5" and "sweeping P time s5 = Some s6"
    and "finalizing s6 = Some s7"
  shows "same_counters sb s7"
  using seeding_counters[OF assms(1)] set_times_counters[OF assms(2)]
    spread_counters[OF assms(3)] sweeping_counters[OF assms(4)] finalizing_counters[OF assms(5)]
  by (simp add: same_counters_def)

text \<open>
  C9. A \<open>Step\<close> increments the counters of the level it is called for, the
  argument \<open>level\<close> (the base level 0), and of no other level. The step counter of
  that level ends one above its value before the step. Its sub-step counter ends
  one above its value before the step too, unless the regrid loop has regridded
  that level and reset the counter (\<open>okToRegrid\<close> holds for it in the first
  iteration, and the level is still there after the regrid): then it ends at 1.
  The step counters of the other levels are as they were, and their sub-step
  counters are as they were or have been reset to zero; in a step that regrids
  nothing they are all as they were.
\<close>

theorem step_counters_level:
  assumes "timeStep P level time iteration niter stop_time s = Some s'"
  shows "0 \<le> level \<and> nat level < length (level_steps (amr s))
     \<and> nat level < length (level_count (amr s))
     \<and> level_steps (amr s') = (level_steps (amr s))[nat level := level_steps (amr s) ! nat level + 1]
     \<and> length (level_count (amr s')) = length (level_count (amr s))
     \<and> level_count (amr s') ! nat level =
         (if level \<le> lev_top0 s \<and> okToRegrid P (amr s) level
             \<and> level \<le> fst (Amr_regrid P (amr s) level time False)
          then 1 else level_count (amr s) ! nat level + 1)
     \<and> (\<forall>k < length (level_count (amr s)). k \<noteq> nat level \<longrightarrow>
           level_count (amr s') ! k = level_count (amr s) ! k \<or> level_count (amr s') ! k = 0)
     \<and> (no_regrid P level s \<longrightarrow>
          level_count (amr s')
            = (level_count (amr s))[nat level := level_count (amr s) ! nat level + 1])"
proof -
  from assms obtain sb s3 s4 s5 s6 s7 where
    r: "regrid_phase P level time stop_time s = Some sb" and
    3: "seeding P time sb = Some s3" and
    4: "set_times time s3 = Some s4" and
    5: "spread P time s4 = Some s5" and
    6: "sweeping P time s5 = Some s6" and
    7: "finalizing s6 = Some s7" and
    8: "bump_counters level s7 = Some s'"
    by (rule timeStep_parts)
  from timeStep_counters[OF assms] obtain t7 where
    cr: "counts_reset s t7" and "bump_counters level t7 = Some s'" by blast
  note sc = after_regrid_counters[OF 3 4 5 6 7]
  note b = bump_counters_eq[OF 8]
  from r obtain s1 where
    a1: "amr s1 = amr s" and
    lp: "regrid_loop P time stop_time level (lev_top0 s) s1 = Some sb"
    by (rule regrid_phase_parts)
  have len: "length (level_count (amr sb)) = length (level_count (amr s))"
    and lst: "level_steps (amr s7) = level_steps (amr s)"
    and cnt: "\<forall>k < length (level_count (amr s)).
        level_count (amr s7) ! k = level_count (amr s) ! k \<or> level_count (amr s7) ! k = 0"
  proof -
    show "length (level_count (amr sb)) = length (level_count (amr s))"
      using regrid_loop_below[OF lp] a1 by simp
    from regrid_loop_counters[OF lp] a1 sc
    show "level_steps (amr s7) = level_steps (amr s)"
      and "\<forall>k < length (level_count (amr s)).
        level_count (amr s7) ! k = level_count (amr s) ! k \<or> level_count (amr s7) ! k = 0"
      by (simp_all add: counts_reset_def same_counters_def)
  qed
  have l7: "level_count (amr s7) = level_count (amr sb)" using sc by (simp add: same_counters_def)
  have lv: "0 \<le> level" "nat level < length (level_steps (amr s))"
    "nat level < length (level_count (amr s))"
    using b lst l7 len by simp_all
  have st: "level_steps (amr s') = (level_steps (amr s))[nat level := level_steps (amr s) ! nat level + 1]"
    using b lst by simp
  have lc: "level_count (amr s') = (level_count (amr sb))[nat level := level_count (amr sb) ! nat level + 1]"
    using b l7 by simp
  have c1: "length (level_count (amr s')) = length (level_count (amr s))"
    using lc len by simp
  have c2: "level_count (amr s') ! nat level =
         (if level \<le> lev_top0 s \<and> okToRegrid P (amr s) level
             \<and> level \<le> fst (Amr_regrid P (amr s) level time False)
          then 1 else level_count (amr s) ! nat level + 1)"
    using regrid_phase_counts[OF r lv(1,3)] lv(3) len
    by (simp add: lc)
  have c3: "\<forall>k < length (level_count (amr s)). k \<noteq> nat level \<longrightarrow>
           level_count (amr s') ! k = level_count (amr s) ! k \<or> level_count (amr s') ! k = 0"
    using cnt by (simp add: lc l7[symmetric])
  have c4: "level_count (amr s')
            = (level_count (amr s))[nat level := level_count (amr s) ! nat level + 1]"
    if "no_regrid P level s"
    using regrid_phase_none(2)[OF that r] by (simp add: lc)
  from lv st c1 c2 c3 c4 show ?thesis by blast
qed


text \<open>
  On a hierarchy of two levels, a step leaves the counters of level 1 at zero.
\<close>

theorem step_counters_counterexample:
  "map_option (\<lambda>s'. (finest_level (amr s'), level_steps (amr s'), level_count (amr s')))
     (timeStep P0 0 0 1 1 10 s0_two)
   = Some (1, [1, 0], [1, 0])
   \<and> level_steps (amr s0_two) = [0, 0]
   \<and> level_count (amr s0_two) = [0, 0]"
  by code_simp

theorem step_counters_level_witness:
  "\<exists>sa sb. timeStep P0 0 0 1 1 10 s0 = Some sa
      \<and> level_steps (amr sa) = [1, 0] \<and> level_count (amr sa) = [1, 0]
      \<and> timeStep P0 0 1 1 1 10 sa = Some sb
      \<and> level_steps (amr sb) = [2, 0] \<and> level_count (amr sb) ! 0 = 1"
proof -
  have "map_option
      (\<lambda>sa. (finest_level (amr sa), max_level (amr sa), level_steps (amr sa), level_count (amr sa),
             map_option max_iters (timeStep P0 0 1 1 1 10 sa)))
      (timeStep P0 0 0 1 1 10 s0) = Some (0, 1, [1, 0], [1, 0], Some 2)"
    by code_simp
  then obtain sa sb where sa: "timeStep P0 0 0 1 1 10 s0 = Some sa"
    "finest_level (amr sa) = 0" "max_level (amr sa) = 1"
    "level_steps (amr sa) = [1, 0]" "level_count (amr sa) = [1, 0]"
    "timeStep P0 0 1 1 1 10 sa = Some sb"
    by (auto dest!: some_of_map_option)
  have ok: "okToRegrid P0 (amr sa) 0" "0 \<le> fst (Amr_regrid P0 (amr sa) 0 1 False)"
    by (simp_all add: P0_def sa lookup_def)
  have lt: "lev_top0 sa = 0" by (simp add: lev_top0_def sa)
  from step_counters_level[OF sa(6)] sa ok lt show ?thesis
    by simp
qed


subsection \<open>Reading and writing fields\<close>

lemma lookup_store:
  "store xs i v = Some ys \<Longrightarrow> lookup ys j = (if j = i then Some v else lookup xs j)"
  by (auto simp: store_def lookup_def split: if_splits)

lemma lookup_Some_iff:
  "lookup xs i = Some v \<longleftrightarrow> 0 \<le> i \<and> i < int (length xs) \<and> xs ! nat i = v"
  by (auto simp: lookup_def)

lemma store_length: "store xs i v = Some ys \<Longrightarrow> length ys = length xs"
  by (auto simp: store_def split: if_splits)

lemma put_new_data_get:
  assumes "put_new_data lev st U s = Some s'"
  shows "get_new_data s' lev' st' = (if lev' = lev \<and> st' = st then Some U else get_new_data s lev' st')"
    and "desc_lst_size s' lev' = desc_lst_size s lev'"
    and "sweepers s' = sweepers s" and "mg_nlevels s' = mg_nlevels s"
    and "finest_level (amr s') = finest_level (amr s)"
proof -
  from assms obtain L nd ls where
    L: "lookup (amr_level (amr s)) lev = Some L" and
    nd: "store (new_data L) (int st) U = Some nd" and
    ls: "store (amr_level (amr s)) lev (L\<lparr>new_data := nd\<rparr>) = Some ls" and
    s': "s' = s\<lparr>amr := (amr s)\<lparr>amr_level := ls\<rparr>\<rparr>"
    unfolding put_new_data_def bind_eq_Some_conv by auto
  show "get_new_data s' lev' st' = (if lev' = lev \<and> st' = st then Some U else get_new_data s lev' st')"
    using L by (simp add: get_new_data_def s' lookup_store[OF ls] lookup_store[OF nd])
  show "desc_lst_size s' lev' = desc_lst_size s lev'"
    using L by (simp add: desc_lst_size_def s' lookup_store[OF ls] store_length[OF nd])
  show "sweepers s' = sweepers s" "mg_nlevels s' = mg_nlevels s"
    "finest_level (amr s') = finest_level (amr s)"
    by (simp_all add: s')
qed

lemma get_Q_cong:
  "sweepers s' = sweepers s \<Longrightarrow> mg_nlevels s' = mg_nlevels s \<Longrightarrow> get_Q s' = get_Q s"
  by (intro ext) (simp add: get_Q_def mg_sweeper_def)

lemma get_new_data_cong:
  "amr s' = amr s \<Longrightarrow> get_new_data s' = get_new_data s"
  by (intro ext) (simp add: get_new_data_def)

lemma desc_lst_size_cong:
  "amr s' = amr s \<Longrightarrow> desc_lst_size s' = desc_lst_size s"
  by (intro ext) (simp add: desc_lst_size_def)

lemma mg_sweeper_Some:
  "mg_sweeper s lev = Some sw \<longleftrightarrow> lev < mg_nlevels s \<and> lookup (sweepers s) lev = Some (Some sw)"
  by (auto simp: mg_sweeper_def split: option.splits)

lemma put_Q_get:
  assumes "put_Q lev m U s = Some s'"
  shows "get_Q s' lev' m' = (if lev' = lev \<and> m' = m then Some U else get_Q s lev' m')"
    and "amr s' = amr s" and "mg_nlevels s' = mg_nlevels s"
proof -
  from assms obtain sw q sws where
    sw: "mg_sweeper s lev = Some sw" and
    q: "store (Q sw) m U = Some q" and
    sws: "store (sweepers s) lev (Some (sw\<lparr>Q := q\<rparr>)) = Some sws" and
    s': "s' = s\<lparr>sweepers := sws\<rparr>"
    unfolding put_Q_def bind_eq_Some_conv by auto
  from sw have l: "lev < mg_nlevels s" "lookup (sweepers s) lev = Some (Some sw)"
    by (simp_all add: mg_sweeper_Some)
  show "get_Q s' lev' m' = (if lev' = lev \<and> m' = m then Some U else get_Q s lev' m')"
    using l by (simp add: get_Q_def mg_sweeper_def s' lookup_store[OF sws] lookup_store[OF q])
  show "amr s' = amr s" "mg_nlevels s' = mg_nlevels s" by (simp_all add: s')
qed

lemma MultiFab_Copy_agree:
  assumes "MultiFab_Copy dst src 0 0 numcomp nghost = Some U"
  shows "nComp U = nComp dst" and "nGrow U = nGrow dst"
    and "numcomp = nComp dst \<Longrightarrow> nghost = nGrow dst \<Longrightarrow> agree_on U src"
    and "numcomp = nComp src \<Longrightarrow> nghost = nGrow src \<Longrightarrow> agree_on src U"
  using assms by (auto simp: MultiFab_Copy_def agree_on_def split: if_splits)

subsection \<open>Seeding\<close>

text \<open>What one iteration of the seeding loop does, and what it leaves alone.\<close>

lemma seed_state_post:
  assumes "seed_state P time lev st s = Some s'"
  shows "\<exists>Unew U0 U0'.
           get_new_data s lev st = Some Unew \<and> get_Q s lev 0 = Some U0
         \<and> get_new_data s' lev st
             = Some (fill_boundary P (amr s) lev Unew time (fill_boundary_type lev))
         \<and> get_Q s' lev 0 = Some U0' \<and> nComp U0' = nComp U0 \<and> nGrow U0' = nGrow U0
         \<and> agree_on U0' (fill_boundary P (amr s) lev Unew time (fill_boundary_type lev))"
    and "lev' \<noteq> lev \<or> st' \<noteq> st \<Longrightarrow> get_new_data s' lev' st' = get_new_data s lev' st'"
    and "lev' \<noteq> lev \<or> m \<noteq> 0 \<Longrightarrow> get_Q s' lev' m = get_Q s lev' m"
    and "desc_lst_size s' lev' = desc_lst_size s lev'"
    and "finest_level (amr s') = finest_level (amr s)"
proof -
  from assms obtain Unew s1 U0 U0' s3 where
    1: "get_new_data s lev st = Some Unew" and
    2: "put_new_data lev st (fill_boundary P (amr s) lev Unew time (fill_boundary_type lev)) s = Some s1" and
    3: "get_Q (s1\<lparr>trace := trace s1 @ [Ev_fill_boundary lev (fill_boundary_type lev)]\<rparr>) lev 0 = Some U0" and
    4: "MultiFab_Copy U0 (fill_boundary P (amr s) lev Unew time (fill_boundary_type lev)) 0 0
          (nComp U0) (nGrow U0) = Some U0'" and
    5: "put_Q lev 0 U0' (s1\<lparr>trace := trace s1 @ [Ev_fill_boundary lev (fill_boundary_type lev)]\<rparr>) = Some s3" and
    6: "s' = s3\<lparr>trace := trace s3 @ [Ev_copy_to_Q0 lev st]\<rparr>"
    unfolding seed_state_def Let_def bind_eq_Some_conv option.inject by blast
  let ?s2 = "s1\<lparr>trace := trace s1 @ [Ev_fill_boundary lev (fill_boundary_type lev)]\<rparr>"
  have "sweepers ?s2 = sweepers s" "mg_nlevels ?s2 = mg_nlevels s"
    using put_new_data_get(3,4)[OF 2] by simp_all
  then have q2: "get_Q ?s2 = get_Q s" by (rule get_Q_cong)
  have a3: "amr s' = amr s1"
    using put_Q_get(2)[OF 5] unfolding 6 by simp
  have n3: "get_new_data s' = get_new_data s1" "desc_lst_size s' = desc_lst_size s1"
    using a3 by (rule get_new_data_cong, rule desc_lst_size_cong)
  have "sweepers s' = sweepers s3" "mg_nlevels s' = mg_nlevels s3"
    unfolding 6 by simp_all
  then have q3: "get_Q s' = get_Q s3" by (rule get_Q_cong)
  show "\<exists>Unew U0 U0'.
           get_new_data s lev st = Some Unew \<and> get_Q s lev 0 = Some U0
         \<and> get_new_data s' lev st
             = Some (fill_boundary P (amr s) lev Unew time (fill_boundary_type lev))
         \<and> get_Q s' lev 0 = Some U0' \<and> nComp U0' = nComp U0 \<and> nGrow U0' = nGrow U0
         \<and> agree_on U0' (fill_boundary P (amr s) lev Unew time (fill_boundary_type lev))"
    using 1 3 MultiFab_Copy_agree(1,2,3)[OF 4]
    by (simp add: q2 q3 n3 put_new_data_get(1)[OF 2] put_Q_get(1)[OF 5])
  show "lev' \<noteq> lev \<or> st' \<noteq> st \<Longrightarrow> get_new_data s' lev' st' = get_new_data s lev' st'"
    by (auto simp: n3 put_new_data_get(1)[OF 2])
  show "lev' \<noteq> lev \<or> m \<noteq> 0 \<Longrightarrow> get_Q s' lev' m = get_Q s lev' m"
    by (auto simp: q3 put_Q_get(1)[OF 5] q2)
  show "desc_lst_size s' lev' = desc_lst_size s lev'"
    by (simp add: n3 put_new_data_get(2)[OF 2])
  show "finest_level (amr s') = finest_level (amr s)"
    by (simp add: a3 put_new_data_get(5)[OF 2])
qed

lemma seed_level_post:
  assumes "seed_level P time lev s = Some s'"
  shows "seeded s' lev"
    and "lev' \<noteq> lev \<Longrightarrow> get_new_data s' lev' st = get_new_data s lev' st"
    and "lev' \<noteq> lev \<Longrightarrow> get_Q s' lev' m = get_Q s lev' m"
    and "desc_lst_size s' lev' = desc_lst_size s lev'"
    and "finest_level (amr s') = finest_level (amr s)"
    and "trace s' = trace s @ concat (map (seed_events lev) [0..<nstates s lev])"
proof -
  from assms obtain n where
    n: "desc_lst_size s lev = Some n" and
    f: "forM [0..<n] (seed_state P time lev) s = Some s'"
    unfolding seed_level_def bind_eq_Some_conv by blast
  let ?I = "\<lambda>zs c.
      (zs \<noteq> [] \<longrightarrow> (\<exists>U0 U. get_Q c lev 0 = Some U0 \<and> get_new_data c lev (last zs) = Some U
                        \<and> agree_on U0 U))
    \<and> (\<forall>lev' st. lev' \<noteq> lev \<longrightarrow> get_new_data c lev' st = get_new_data s lev' st)
    \<and> (\<forall>lev' m. lev' \<noteq> lev \<longrightarrow> get_Q c lev' m = get_Q s lev' m)
    \<and> (\<forall>lev'. desc_lst_size c lev' = desc_lst_size s lev')
    \<and> finest_level (amr c) = finest_level (amr s)
    \<and> trace c = trace s @ concat (map (seed_events lev) zs)"
  have I: "?I [0..<n] s'"
    using f
  proof (rule forM_indexed[where I="?I"])
    show "?I [] s" by simp
  next
    fix zs st c d
    assume c: "?I zs c" and d: "seed_state P time lev st c = Some d"
    from seed_state_post(1)[OF d] obtain U0' U where
      "get_Q d lev 0 = Some U0'" "get_new_data d lev st = Some U" "agree_on U0' U"
      by blast
    moreover have "trace d = trace c @ seed_events lev st"
      using seed_state_log[OF d] by (simp add: seed_events_def fill_boundary_type_def)
    ultimately show "?I (zs @ [st]) d"
      using c seed_state_post(2,3,4,5)[OF d] by simp
  qed
  have ns: "nstates s' lev = n" "nstates s lev = n"
    using I n by (simp_all add: nstates_def)
  show "seeded s' lev"
    using I unfolding seeded_def ns by (cases "n = 0") auto
  show "lev' \<noteq> lev \<Longrightarrow> get_new_data s' lev' st = get_new_data s lev' st"
    using I by blast
  show "lev' \<noteq> lev \<Longrightarrow> get_Q s' lev' m = get_Q s lev' m"
    using I by blast
  show "desc_lst_size s' lev' = desc_lst_size s lev'" using I by blast
  show "finest_level (amr s') = finest_level (amr s)" using I by blast
  show "trace s' = trace s @ concat (map (seed_events lev) [0..<nstates s lev])"
    using I unfolding ns by blast
qed



lemma seed_states_frame:
  assumes "forM xs (seed_state P time lev) a = Some b"
  shows "st \<notin> set xs \<Longrightarrow> get_new_data b lev st = get_new_data a lev st"
    and "get_Q b lev 0 = Some U' \<Longrightarrow>
           \<exists>U. get_Q a lev 0 = Some U \<and> nComp U' = nComp U \<and> nGrow U' = nGrow U"
proof -
  show "get_new_data b lev st = get_new_data a lev st" if "st \<notin> set xs"
    using assms
  proof (rule forM_invariant[where I="\<lambda>c. get_new_data c lev st = get_new_data a lev st"])
    show "get_new_data a lev st = get_new_data a lev st" ..
  next
    fix x c d
    assume x: "x \<in> set xs" and c: "get_new_data c lev st = get_new_data a lev st"
      and d: "seed_state P time lev x c = Some d"
    from x that have "st \<noteq> x" by auto
    with seed_state_post(2)[OF d, of lev st] c
    show "get_new_data d lev st = get_new_data a lev st" by simp
  qed
  let ?I = "\<lambda>c. \<forall>U'. get_Q c lev 0 = Some U' \<longrightarrow>
      (\<exists>U. get_Q a lev 0 = Some U \<and> nComp U' = nComp U \<and> nGrow U' = nGrow U)"
  have "?I b"
    using assms
  proof (rule forM_invariant[where I="?I"])
    show "?I a" by simp
  next
    fix x c d
    assume c: "?I c" and d: "seed_state P time lev x c = Some d"
    from seed_state_post(1)[OF d] obtain U0 U0' where
      q: "get_Q c lev 0 = Some U0" "get_Q d lev 0 = Some U0'"
        "nComp U0' = nComp U0" "nGrow U0' = nGrow U0"
      by blast
    from c q(1) obtain U where "get_Q a lev 0 = Some U" "nComp U0 = nComp U" "nGrow U0 = nGrow U"
      by blast
    with q show "?I d" by simp
  qed
  then show "get_Q b lev 0 = Some U' \<Longrightarrow>
           \<exists>U. get_Q a lev 0 = Some U \<and> nComp U' = nComp U \<and> nGrow U' = nGrow U"
    by blast
qed

lemma seed_levels_frame:
  assumes "forM ks (seed_level P time) a = Some b"
  shows "lev \<notin> set ks \<Longrightarrow> get_new_data b lev st = get_new_data a lev st"
    and "lev \<notin> set ks \<Longrightarrow> get_Q b lev m = get_Q a lev m"
    and "desc_lst_size b lev = desc_lst_size a lev"
proof -
  show "get_new_data b lev st = get_new_data a lev st" if "lev \<notin> set ks"
    using assms
  proof (rule forM_invariant[where I="\<lambda>c. get_new_data c lev st = get_new_data a lev st"])
    show "get_new_data a lev st = get_new_data a lev st" ..
  next
    fix x c d
    assume x: "x \<in> set ks" and c: "get_new_data c lev st = get_new_data a lev st"
      and d: "seed_level P time x c = Some d"
    from x that have "lev \<noteq> x" by auto
    from seed_level_post(2)[OF d this] c
    show "get_new_data d lev st = get_new_data a lev st" by simp
  qed
  show "get_Q b lev m = get_Q a lev m" if "lev \<notin> set ks"
    using assms
  proof (rule forM_invariant[where I="\<lambda>c. get_Q c lev m = get_Q a lev m"])
    show "get_Q a lev m = get_Q a lev m" ..
  next
    fix x c d
    assume x: "x \<in> set ks" and c: "get_Q c lev m = get_Q a lev m"
      and d: "seed_level P time x c = Some d"
    from x that have "lev \<noteq> x" by auto
    from seed_level_post(3)[OF d this] c
    show "get_Q d lev m = get_Q a lev m" by simp
  qed
  show "desc_lst_size b lev = desc_lst_size a lev"
    using assms
  proof (rule forM_invariant[where I="\<lambda>c. desc_lst_size c lev = desc_lst_size a lev"])
    show "desc_lst_size a lev = desc_lst_size a lev" ..
  next
    fix x c d
    assume c: "desc_lst_size c lev = desc_lst_size a lev"
      and d: "seed_level P time x c = Some d"
    from seed_level_post(4)[OF d] c
    show "desc_lst_size d lev = desc_lst_size a lev" by simp
  qed
qed

lemma forM_split:
  assumes "forM (xs @ x # ys) f s = Some s'"
  obtains a b where "forM xs f s = Some a" and "f x a = Some b" and "forM ys f b = Some s'"
  using assms by (auto simp: forM_append split: option.splits)

lemma seeding_field:
  assumes "seeding P time sb = Some s'"
    and "0 \<le> lev" and "lev \<le> finest_level (amr sb)" and "st < nstates sb lev"
  shows "\<exists>c U. seed_upto P time lev st sb = Some c \<and> get_new_data sb lev st = Some U
           \<and> get_new_data s' lev st
                = Some (fill_boundary P (amr c) lev U time (fill_boundary_type lev))
           \<and> (st = nstates sb lev - 1 \<longrightarrow>
                (\<exists>U0 U0'. get_Q sb lev 0 = Some U0 \<and> get_Q s' lev 0 = Some U0'
                   \<and> nComp U0' = nComp U0 \<and> nGrow U0' = nGrow U0
                   \<and> agree_on U0' (fill_boundary P (amr c) lev U time (fill_boundary_type lev))))"
proof -
  let ?F = "finest_level (amr sb)"
  have sp: "[0..?F] = [0..lev - 1] @ lev # [lev + 1..?F]"
    using assms(2,3) by (rule upto_split3)
  from assms(1) obtain a b where
    1: "forM [0..lev - 1] (seed_level P time) sb = Some a" and
    2: "seed_level P time lev a = Some b" and
    3: "forM [lev + 1..?F] (seed_level P time) b = Some s'"
    unfolding seeding_def sp by (rule forM_split)
  have l1: "lev \<notin> set [0..lev - 1]" and l3: "lev \<notin> set [lev + 1..?F]" by simp_all
  note f1 = seed_levels_frame[OF 1]
  note f3 = seed_levels_frame[OF 3]
  from 2 obtain n where
    n: "desc_lst_size a lev = Some n" and
    f: "forM [0..<n] (seed_state P time lev) a = Some b"
    unfolding seed_level_def bind_eq_Some_conv by blast
  have ns: "nstates sb lev = n" using n f1(3)[of lev] by (simp add: nstates_def)
  with assms(4) have st: "st < n" by simp
  then have "[0..<n] = [0..<st] @ st # [Suc st..<n]"
    using upt_add_eq_append[of 0 st "n - st"] by (simp add: upt_conv_Cons)
  with f obtain c d where
    4: "forM [0..<st] (seed_state P time lev) a = Some c" and
    5: "seed_state P time lev st c = Some d" and
    6: "forM [Suc st..<n] (seed_state P time lev) d = Some b"
    by (metis forM_split)
  have up: "seed_upto P time lev st sb = Some c"
    by (simp add: seed_upto_def 1 4)
  from seed_state_post(1)[OF 5] obtain Unew U0c U0d where
    p: "get_new_data c lev st = Some Unew" "get_Q c lev 0 = Some U0c"
      "get_new_data d lev st
         = Some (fill_boundary P (amr c) lev Unew time (fill_boundary_type lev))"
      "get_Q d lev 0 = Some U0d" "nComp U0d = nComp U0c" "nGrow U0d = nGrow U0c"
      "agree_on U0d (fill_boundary P (amr c) lev Unew time (fill_boundary_type lev))"
    by blast
  have g0: "get_new_data sb lev st = Some Unew"
    using p(1) seed_states_frame(1)[OF 4, of st] f1(1)[OF l1, of st] by simp
  have g1: "get_new_data s' lev st
      = Some (fill_boundary P (amr c) lev Unew time (fill_boundary_type lev))"
    using p(3) seed_states_frame(1)[OF 6, of st] f3(1)[OF l3, of st] by simp
  have q: "\<exists>U0 U0'. get_Q sb lev 0 = Some U0 \<and> get_Q s' lev 0 = Some U0'
                   \<and> nComp U0' = nComp U0 \<and> nGrow U0' = nGrow U0
                   \<and> agree_on U0' (fill_boundary P (amr c) lev Unew time (fill_boundary_type lev))"
    if "st = nstates sb lev - 1"
  proof -
    from that ns st have "[Suc st..<n] = []" by simp
    with 6 have "b = d" by simp
    with f3(2)[OF l3, of 0] p(4) have e: "get_Q s' lev 0 = Some U0d" by simp
    from seed_states_frame(2)[OF 4 p(2)] obtain U where
      "get_Q a lev 0 = Some U" "nComp U0c = nComp U" "nGrow U0c = nGrow U" by blast
    with f1(2)[OF l1, of 0] have "get_Q sb lev 0 = Some U" "nComp U0d = nComp U" "nGrow U0d = nGrow U"
      using p(5,6) by simp_all
    with e p(7) show ?thesis by blast
  qed
  from up g0 g1 q show ?thesis by blast
qed

text \<open>
  C4. The seeding phase of a \<open>Step\<close> works on the hierarchy as the regrid loop
  has left it, which is the hierarchy as it was before the step when the loop has
  regridded nothing. For every level up to the finest and every state type, it
  replaces the new-data field by what \<open>fill_boundary\<close> makes of it, in the mode of
  the level and on the hierarchy as the earlier iterations of the loop have left
  it. After the phase, node \<open>Q[0]\<close> of the level has the components and ghost
  layers it had, and holds on all of them an exact copy of that filled field, for
  the last state type of the level.
\<close>

theorem seeding_copies_filled_field:
  assumes "timeStep_begin P level time stop_time s = Some s'"
  shows "\<exists>sb. regrid_phase P level time stop_time s = Some sb \<and> seeding P time sb = Some s'
     \<and> (no_regrid P level s \<longrightarrow> amr sb = amr s)
     \<and> (\<forall>lev st. 0 \<le> lev \<and> lev \<le> finest_level (amr sb) \<and> st < nstates sb lev \<longrightarrow>
          (\<exists>c U. seed_upto P time lev st sb = Some c \<and> get_new_data sb lev st = Some U
             \<and> get_new_data s' lev st
                  = Some (fill_boundary P (amr c) lev U time (fill_boundary_type lev))
             \<and> (st = nstates sb lev - 1 \<longrightarrow>
                  (\<exists>U0 U0'. get_Q sb lev 0 = Some U0 \<and> get_Q s' lev 0 = Some U0'
                     \<and> nComp U0' = nComp U0 \<and> nGrow U0' = nGrow U0
                     \<and> agree_on U0'
                          (fill_boundary P (amr c) lev U time (fill_boundary_type lev))))))"
proof -
  from assms obtain sb where
    r: "regrid_phase P level time stop_time s = Some sb" and sd: "seeding P time sb = Some s'"
    unfolding timeStep_begin_def bind_eq_Some_conv by blast
  have nr: "no_regrid P level s \<longrightarrow> amr sb = amr s"
    using regrid_phase_none(2)[OF _ r] by blast
  have F: "\<forall>lev st. 0 \<le> lev \<and> lev \<le> finest_level (amr sb) \<and> st < nstates sb lev \<longrightarrow>
          (\<exists>c U. seed_upto P time lev st sb = Some c \<and> get_new_data sb lev st = Some U
             \<and> get_new_data s' lev st
                  = Some (fill_boundary P (amr c) lev U time (fill_boundary_type lev))
             \<and> (st = nstates sb lev - 1 \<longrightarrow>
                  (\<exists>U0 U0'. get_Q sb lev 0 = Some U0 \<and> get_Q s' lev 0 = Some U0'
                     \<and> nComp U0' = nComp U0 \<and> nGrow U0' = nGrow U0
                     \<and> agree_on U0'
                          (fill_boundary P (amr c) lev U time (fill_boundary_type lev)))))"
  proof (intro allI impI)
    fix lev st
    assume h: "0 \<le> lev \<and> lev \<le> finest_level (amr sb) \<and> st < nstates sb lev"
    show "\<exists>c U. seed_upto P time lev st sb = Some c \<and> get_new_data sb lev st = Some U
             \<and> get_new_data s' lev st
                  = Some (fill_boundary P (amr c) lev U time (fill_boundary_type lev))
             \<and> (st = nstates sb lev - 1 \<longrightarrow>
                  (\<exists>U0 U0'. get_Q sb lev 0 = Some U0 \<and> get_Q s' lev 0 = Some U0'
                     \<and> nComp U0' = nComp U0 \<and> nGrow U0' = nGrow U0
                     \<and> agree_on U0'
                          (fill_boundary P (amr c) lev U time (fill_boundary_type lev))))"
      by (rule seeding_field[OF sd]) (use h in simp_all)
  qed
  show ?thesis
    by (rule exI[of _ sb]) (intro conjI r sd nr F)
qed


theorem seeding_copies_filled_field_witness:
  "\<exists>s' sb c U U0'.
      timeStep_begin P0 0 0 10 s0_two = Some s' \<and> regrid_phase P0 0 0 10 s0_two = Some sb
    \<and> amr sb = amr s0_two \<and> seed_upto P0 0 1 0 sb = Some c
    \<and> get_new_data sb 1 0 = Some U
    \<and> get_new_data s' 1 0 = Some (fill_boundary P0 (amr c) 1 U 0 use_FillCoarsePatch)
    \<and> get_Q s' 1 0 = Some U0'
    \<and> agree_on U0' (fill_boundary P0 (amr c) 1 U 0 use_FillCoarsePatch)"
proof -
  have "map_option max_iters (timeStep_begin P0 0 0 10 s0_two) = Some 2" by code_simp
  then obtain s' where s': "timeStep_begin P0 0 0 10 s0_two = Some s'"
    by (auto dest: some_of_map_option)
  have n: "no_regrid P0 0 s0_two"
    by (simp add: no_regrid_def lev_top0_def s0_two_def s0_def a0_def P0_def lookup_def)
  from seeding_copies_filled_field[OF s'] n obtain sb where
    sb: "regrid_phase P0 0 0 10 s0_two = Some sb" "amr sb = amr s0_two" and
    f: "\<forall>lev st. 0 \<le> lev \<and> lev \<le> finest_level (amr sb) \<and> st < nstates sb lev \<longrightarrow>
          (\<exists>c U. seed_upto P0 0 lev st sb = Some c \<and> get_new_data sb lev st = Some U
             \<and> get_new_data s' lev st
                  = Some (fill_boundary P0 (amr c) lev U 0 (fill_boundary_type lev))
             \<and> (st = nstates sb lev - 1 \<longrightarrow>
                  (\<exists>U0 U0'. get_Q sb lev 0 = Some U0 \<and> get_Q s' lev 0 = Some U0'
                     \<and> nComp U0' = nComp U0 \<and> nGrow U0' = nGrow U0
                     \<and> agree_on U0'
                          (fill_boundary P0 (amr c) lev U 0 (fill_boundary_type lev)))))"
    by blast
  have h: "finest_level (amr sb) = 1" "nstates sb 1 = 1"
    by (simp_all add: sb(2) nstates_def desc_lst_size_def s0_two_def s0_def a0_def lookup_def)
  from f[rule_format, of 1 0] h obtain c U U0' where
    "seed_upto P0 0 1 0 sb = Some c" "get_new_data sb 1 0 = Some U"
    "get_new_data s' 1 0 = Some (fill_boundary P0 (amr c) 1 U 0 use_FillCoarsePatch)"
    "get_Q s' 1 0 = Some U0'"
    "agree_on U0' (fill_boundary P0 (amr c) 1 U 0 use_FillCoarsePatch)"
    by (auto simp: fill_boundary_type_def)
  with s' sb show ?thesis by blast
qed

text \<open>
  The seeding of the first step of the small hierarchy: the ghost layer of \<open>Q[0]\<close>
  holds what the boundary fill has written, not what the field held before the
  step. With two state types at a level, \<open>Q[0]\<close> holds the field of the second one.
\<close>

theorem seeding_copies_filled_field_counterexample:
  "map_option (\<lambda>s'. map_option (\<lambda>U. (nComp U, nGrow U, dat U 0 0, dat U 0 1)) (get_Q s' 0 0))
      (timeStep_begin P0 0 0 10 s0) = Some (Some (1, 1, 5, 7))
   \<and> map_option (\<lambda>U. (nComp U, nGrow U, dat U 0 0, dat U 0 1)) (get_new_data s0 0 0)
      = Some (1, 1, 5, 5)
   \<and> map_option (\<lambda>s'. map_option (\<lambda>U. (nComp U, nGrow U, dat U 0 0, dat U 0 1)) (get_Q s' 0 0))
      (timeStep_begin P0 0 0 10 s0_st2) = Some (Some (1, 1, 8, 7))
   \<and> map_option (\<lambda>U. (nComp U, nGrow U, dat U 0 0, dat U 0 1)) (get_new_data s0_st2 0 0)
      = Some (1, 1, 5, 5)
   \<and> map_option (\<lambda>U. (nComp U, nGrow U, dat U 0 0, dat U 0 1)) (get_new_data s0_st2 0 1)
      = Some (1, 1, 8, 8)"
  by code_simp



subsection \<open>Finalizing\<close>

lemma get_Qend_cong:
  "sweepers s' = sweepers s \<Longrightarrow> mg_nlevels s' = mg_nlevels s \<Longrightarrow> get_Qend s' = get_Qend s"
  by (intro ext) (simp add: get_Qend_def mg_sweeper_def)

lemma final_state_post:
  assumes "final_state lev st s = Some s'"
  shows "finalized s' lev st"
    and "lev' \<noteq> lev \<or> st' \<noteq> st \<Longrightarrow> get_new_data s' lev' st' = get_new_data s lev' st'"
    and "sweepers s' = sweepers s" and "mg_nlevels s' = mg_nlevels s"
    and "desc_lst_size s' lev' = desc_lst_size s lev'"
    and "finest_level (amr s') = finest_level (amr s)"
proof -
  from assms obtain sw Unew Uend Unew' s1 where
    1: "mg_sweeper s lev = Some sw" and
    2: "get_new_data s lev st = Some Unew" and
    3: "lookup (Q sw) (nnodes sw - 1) = Some Uend" and
    4: "MultiFab_Copy Unew Uend 0 0 (nComp Uend) (nGrow Uend) = Some Unew'" and
    5: "put_new_data lev st Unew' s = Some s1" and
    6: "s' = s1\<lparr>trace := trace s1 @ [Ev_copy_from_Qend lev st]\<rparr>"
    unfolding final_state_def Let_def bind_eq_Some_conv option.inject by blast
  have a: "amr s' = amr s1" unfolding 6 by simp
  have n: "get_new_data s' = get_new_data s1" "desc_lst_size s' = desc_lst_size s1"
    using a by (rule get_new_data_cong, rule desc_lst_size_cong)
  show sw: "sweepers s' = sweepers s" "mg_nlevels s' = mg_nlevels s"
    using put_new_data_get(3,4)[OF 5] unfolding 6 by simp_all
  have "get_Qend s' lev = Some Uend"
    using 1 3 by (simp add: get_Qend_cong[OF sw] get_Qend_def)
  moreover have "get_new_data s' lev st = Some Unew'"
    by (simp add: n put_new_data_get(1)[OF 5])
  moreover have "agree_on Uend Unew'"
    using MultiFab_Copy_agree(4)[OF 4] by simp
  ultimately show "finalized s' lev st" unfolding finalized_def by blast
  show "lev' \<noteq> lev \<or> st' \<noteq> st \<Longrightarrow> get_new_data s' lev' st' = get_new_data s lev' st'"
    by (auto simp: n put_new_data_get(1)[OF 5])
  show "desc_lst_size s' lev' = desc_lst_size s lev'"
    by (simp add: n put_new_data_get(2)[OF 5])
  show "finest_level (amr s') = finest_level (amr s)"
    by (simp add: a put_new_data_get(5)[OF 5])
qed

lemma finalized_frame:
  assumes "finalized a lev st"
    and "get_new_data b lev st = get_new_data a lev st"
    and "sweepers b = sweepers a" and "mg_nlevels b = mg_nlevels a"
  shows "finalized b lev st"
  using assms(1,2) unfolding finalized_def get_Qend_cong[OF assms(3,4)] by simp

lemma final_level_post:
  assumes "final_level lev s = Some s'"
  shows "\<forall>st < nstates s lev. finalized s' lev st"
    and "lev' \<noteq> lev \<Longrightarrow> get_new_data s' lev' st' = get_new_data s lev' st'"
    and "sweepers s' = sweepers s" and "mg_nlevels s' = mg_nlevels s"
    and "desc_lst_size s' lev' = desc_lst_size s lev'"
    and "finest_level (amr s') = finest_level (amr s)"
proof -
  from assms obtain n where
    n: "desc_lst_size s lev = Some n" and
    f: "forM [0..<n] (final_state lev) s = Some s'"
    unfolding final_level_def bind_eq_Some_conv by blast
  let ?I = "\<lambda>zs c.
      (\<forall>st \<in> set zs. finalized c lev st)
    \<and> (\<forall>lev' st'. lev' \<noteq> lev \<longrightarrow> get_new_data c lev' st' = get_new_data s lev' st')
    \<and> sweepers c = sweepers s \<and> mg_nlevels c = mg_nlevels s
    \<and> (\<forall>lev'. desc_lst_size c lev' = desc_lst_size s lev')
    \<and> finest_level (amr c) = finest_level (amr s)"
  have I: "?I [0..<n] s'"
    using f
  proof (rule forM_indexed[where I="?I"])
    show "?I [] s" by simp
  next
    fix zs st c d
    assume c: "?I zs c" and d: "final_state lev st c = Some d"
    have "finalized d lev x" if "x \<in> set (zs @ [st])" for x
    proof (cases "x = st")
      case True
      with final_state_post(1)[OF d] show ?thesis by simp
    next
      case False
      with that c have "finalized c lev x" by simp
      then show ?thesis
        using final_state_post(2)[OF d, of lev x] False final_state_post(3,4)[OF d]
        by (intro finalized_frame[of c lev x d]) simp_all
    qed
    then show "?I (zs @ [st]) d"
      using c final_state_post(2,3,4,5,6)[OF d] by simp
  qed
  have ns: "nstates s lev = n" using n by (simp add: nstates_def)
  show "\<forall>st < nstates s lev. finalized s' lev st" using I unfolding ns by simp
  show "lev' \<noteq> lev \<Longrightarrow> get_new_data s' lev' st' = get_new_data s lev' st'" using I by blast
  show "sweepers s' = sweepers s" "mg_nlevels s' = mg_nlevels s" using I by blast+
  show "desc_lst_size s' lev' = desc_lst_size s lev'" using I by blast
  show "finest_level (amr s') = finest_level (amr s)" using I by blast
qed

lemma finalizing_post:
  assumes "finalizing s = Some s'"
  shows "\<forall>lev \<in> set [0..finest_level (amr s)]. \<forall>st < nstates s' lev. finalized s' lev st"
    and "sweepers s' = sweepers s" and "mg_nlevels s' = mg_nlevels s"
    and "finest_level (amr s') = finest_level (amr s)"
proof -
  let ?I = "\<lambda>ys a.
      (\<forall>lev \<in> set ys. \<forall>st < nstates a lev. finalized a lev st)
    \<and> sweepers a = sweepers s \<and> mg_nlevels a = mg_nlevels s
    \<and> finest_level (amr a) = finest_level (amr s)"
  have I: "?I [0..finest_level (amr s)] s'"
    using assms[unfolded finalizing_def]
  proof (rule forM_indexed[where I="?I"])
    show "?I [] s" by simp
  next
    fix ys lev a b
    assume a: "?I ys a" and b: "final_level lev a = Some b"
    have ns: "nstates b l = nstates a l" for l
      using final_level_post(5)[OF b] by (simp add: nstates_def)
    have "finalized b l st" if "l \<in> set (ys @ [lev])" "st < nstates b l" for l st
    proof (cases "l = lev")
      case True
      with final_level_post(1)[OF b] that ns show ?thesis by simp
    next
      case False
      with that a ns have "finalized a l st" by simp
      then show ?thesis
        using final_level_post(2)[OF b False] final_level_post(3,4)[OF b]
        by (intro finalized_frame[of a l st b]) simp_all
    qed
    then show "?I (ys @ [lev]) b"
      using a final_level_post(3,4,6)[OF b] by simp
  qed
  show "\<forall>lev \<in> set [0..finest_level (amr s)]. \<forall>st < nstates s' lev. finalized s' lev st"
    using I by blast
  show "sweepers s' = sweepers s" "mg_nlevels s' = mg_nlevels s"
    "finest_level (amr s') = finest_level (amr s)"
    using I by blast+
qed

lemma bump_counters_frame:
  assumes "bump_counters level s = Some s'"
  shows "sweepers s' = sweepers s" and "mg_nlevels s' = mg_nlevels s"
    and "get_new_data s' = get_new_data s" and "desc_lst_size s' = desc_lst_size s"
    and "finest_level (amr s') = finest_level (amr s)"
proof -
  from assms obtain ls lc where
    s': "s' = s\<lparr>amr := (amr s)\<lparr>level_steps := ls, level_count := lc\<rparr>\<rparr>"
    unfolding bump_counters_def bind_eq_Some_conv option.inject by blast
  show "sweepers s' = sweepers s" "mg_nlevels s' = mg_nlevels s"
    "finest_level (amr s') = finest_level (amr s)"
    by (simp_all add: s')
  show "get_new_data s' = get_new_data s" "desc_lst_size s' = desc_lst_size s"
    by (simp_all add: s' get_new_data_def desc_lst_size_def fun_eq_iff)
qed

text \<open>
  C5. After a \<open>Step\<close>, for every level up to the finest and every state type, the
  new-data field holds the data of the last node \<open>Q[nnodes-1]\<close> of the level, on
  all the components and ghost layers of that node.
\<close>

theorem finalizing_copies_last_node:
  "timeStep P level time iteration niter stop_time s = Some s' \<Longrightarrow>
     0 \<le> lev \<Longrightarrow> lev \<le> finest_level (amr s') \<Longrightarrow> st < nstates s' lev \<Longrightarrow>
     finalized s' lev st"
proof -
  assume a: "timeStep P level time iteration niter stop_time s = Some s'"
    and l: "0 \<le> lev" "lev \<le> finest_level (amr s')" "st < nstates s' lev"
  from a obtain s6 s7 where
    7: "finalizing s6 = Some s7" and 8: "bump_counters level s7 = Some s'"
    unfolding timeStep_def bind_eq_Some_conv by blast
  have ns: "nstates s' lev = nstates s7 lev"
    by (simp add: nstates_def bump_counters_frame(4)[OF 8])
  from finalizing_post(1,4)[OF 7] l bump_counters_frame(5)[OF 8]
  have "finalized s7 lev st" by (simp add: ns)
  then show "finalized s' lev st"
    by (rule finalized_frame)
      (simp_all add: bump_counters_frame(1,2,3)[OF 8])
qed

theorem finalizing_copies_last_node_witness:
  "\<exists>s'. timeStep P0 0 0 1 1 10 s0_two = Some s' \<and> finalized s' 0 0 \<and> finalized s' 1 0"
proof -
  have "map_option (\<lambda>s'. (finest_level (amr s'), nstates s' 0, nstates s' 1))
          (timeStep P0 0 0 1 1 10 s0_two) = Some (1, 1, 1)"
    by code_simp
  then obtain s' where s': "timeStep P0 0 0 1 1 10 s0_two = Some s'"
    "finest_level (amr s') = 1" "nstates s' 0 = 1" "nstates s' 1 = 1"
    by (auto dest!: some_of_map_option)
  from finalizing_copies_last_node[OF s'(1), of 0 0] finalizing_copies_last_node[OF s'(1), of 1 0] s'
  show ?thesis by auto
qed

subsection \<open>The sweeps and the node storage\<close>






subsection \<open>The hierarchy that rebuild_mlsdc leaves\<close>

lemma forM_total:
  assumes "J s" and "\<And>x a. x \<in> set xs \<Longrightarrow> J a \<Longrightarrow> \<exists>b. f x a = Some b \<and> J b"
  shows "\<exists>s'. forM xs f s = Some s' \<and> J s'"
  using assms
proof (induction xs arbitrary: s)
  case Nil
  then show ?case by simp
next
  case (Cons x xs)
  from Cons.prems(2)[of x s] Cons.prems(1) obtain b where b: "f x s = Some b" "J b" by auto
  from Cons.IH[OF b(2)] Cons.prems(2) obtain s' where "forM xs f b = Some s'" "J s'" by auto
  with b show ?case by auto
qed

lemma store_total: "0 \<le> i \<Longrightarrow> i < int (length xs) \<Longrightarrow> \<exists>ys. store xs i v = Some ys"
  by (simp add: store_def)

lemma lookup_length_cong:
  "lookup xs i = Some v \<Longrightarrow> length ys = length xs \<Longrightarrow> \<exists>w. lookup ys i = Some w"
  by (simp add: lookup_def split: if_splits)

lemma destroy_level_post:
  assumes "destroy_level lev a = Some b"
  shows "lookup (sweepers b) lev = Some None"
    and "k \<noteq> lev \<Longrightarrow> lookup (sweepers b) k = lookup (sweepers a) k"
    and "k \<noteq> lev \<Longrightarrow> lookup (encaps b) k = lookup (encaps a) k"
    and "length (sweepers b) = length (sweepers a)"
    and "length (encaps b) = length (encaps a)"
    and "mg_nlevels b = mg_nlevels a"
proof -
  from assms obtain p where p: "lookup (sweepers a) lev = Some p"
    unfolding destroy_level_def bind_eq_Some_conv by blast
  have c: "lookup (sweepers b) lev = Some None
      \<and> (\<forall>k. k \<noteq> lev \<longrightarrow> lookup (sweepers b) k = lookup (sweepers a) k)
      \<and> (\<forall>k. k \<noteq> lev \<longrightarrow> lookup (encaps b) k = lookup (encaps a) k)
      \<and> length (sweepers b) = length (sweepers a)
      \<and> length (encaps b) = length (encaps a)
      \<and> mg_nlevels b = mg_nlevels a"
  proof (cases p)
    case None
    with assms p have "b = a" by (simp add: destroy_level_def)
    with p None show ?thesis by simp
  next
    case (Some sw)
    with assms p obtain sws encs where
      sws: "store (sweepers a) lev None = Some sws" and
      encs: "store (encaps a) lev None = Some encs" and
      b: "b = a\<lparr>sweepers := sws, encaps := encs\<rparr>"
      by (auto simp: destroy_level_def bind_eq_Some_conv)
    show ?thesis
      by (simp add: b lookup_store[OF sws] lookup_store[OF encs]
          store_length[OF sws] store_length[OF encs])
  qed
  show "lookup (sweepers b) lev = Some None"
    and "k \<noteq> lev \<Longrightarrow> lookup (sweepers b) k = lookup (sweepers a) k"
    and "k \<noteq> lev \<Longrightarrow> lookup (encaps b) k = lookup (encaps a) k"
    and "length (sweepers b) = length (sweepers a)"
    and "length (encaps b) = length (encaps a)"
    and "mg_nlevels b = mg_nlevels a"
    using c by blast+
qed

lemma destroy_level_total:
  assumes "lookup (sweepers a) lev = Some p"
    and "p \<noteq> None \<Longrightarrow> \<exists>e. lookup (encaps a) lev = Some (Some e)"
  shows "\<exists>b. destroy_level lev a = Some b"
proof (cases p)
  case None
  with assms(1) show ?thesis by (simp add: destroy_level_def)
next
  case (Some sw)
  with assms(2) obtain e where e: "lookup (encaps a) lev = Some (Some e)" by auto
  from assms(1) e have "0 \<le> lev" "lev < int (length (sweepers a))" "lev < int (length (encaps a))"
    by (simp_all add: lookup_Some_iff)
  then show ?thesis
    using assms(1) Some e by (simp add: destroy_level_def store_def)
qed

lemma rebuild_level_post:
  assumes "rebuild_level P lev a = Some b"
  shows "\<exists>sw0. rns_sdc_build_level lev = Some sw0
           \<and> lookup (sweepers b) lev = Some (Some (attached lev sw0))"
    and "lookup (encaps b) lev = Some (Some (build_encap P (amr a) lev))"
    and "k \<noteq> lev \<Longrightarrow> lookup (sweepers b) k = lookup (sweepers a) k"
    and "k \<noteq> lev \<Longrightarrow> lookup (encaps b) k = lookup (encaps a) k"
    and "length (sweepers b) = length (sweepers a)"
    and "length (encaps b) = length (encaps a)"
    and "mg_nlevels b = mg_nlevels a + 1"
    and "amr b = amr a"
    and "\<exists>L. lookup (amr_level (amr a)) lev = Some L"
proof -
  from assms obtain encs sw sws L sws' where
    encs: "store (encaps a) lev (Some (build_encap P (amr a) lev)) = Some encs" and
    sw: "rns_sdc_build_level lev = Some sw" and
    sws: "store (sweepers a) lev (Some sw) = Some sws" and
    L: "lookup (amr_level (amr a)) lev = Some L" and
    sws': "store sws lev (Some (sw\<lparr>ctx := Some lev, encap := Some lev\<rparr>)) = Some sws'" and
    b: "b = a\<lparr>encaps := encs, sweepers := sws', mg_nlevels := mg_nlevels a + 1\<rparr>"
    unfolding rebuild_level_def bind_eq_Some_conv option.inject by blast
  show "\<exists>sw0. rns_sdc_build_level lev = Some sw0
           \<and> lookup (sweepers b) lev = Some (Some (attached lev sw0))"
    using sw by (simp add: b lookup_store[OF sws'] attached_def)
  show "lookup (encaps b) lev = Some (Some (build_encap P (amr a) lev))"
    by (simp add: b lookup_store[OF encs])
  show "k \<noteq> lev \<Longrightarrow> lookup (sweepers b) k = lookup (sweepers a) k"
    by (simp add: b lookup_store[OF sws'] lookup_store[OF sws])
  show "k \<noteq> lev \<Longrightarrow> lookup (encaps b) k = lookup (encaps a) k"
    by (simp add: b lookup_store[OF encs])
  show "length (sweepers b) = length (sweepers a)"
    by (simp add: b store_length[OF sws'] store_length[OF sws])
  show "length (encaps b) = length (encaps a)"
    by (simp add: b store_length[OF encs])
  show "mg_nlevels b = mg_nlevels a + 1" "amr b = amr a" by (simp_all add: b)
  show "\<exists>L. lookup (amr_level (amr a)) lev = Some L" using L by blast
qed

lemma rebuild_level_total:
  assumes "0 \<le> lev" and "lev < int (length (encaps a))" and "lev < int (length (sweepers a))"
    and "rns_sdc_build_level lev = Some (sw0 :: 'v sdc_sweeper)"
    and "lookup (amr_level (amr a)) lev = Some L"
  shows "\<exists>b. rebuild_level P lev (a :: 'v sdcamr) = Some b"
  using assms by (simp add: rebuild_level_def store_def)

lemma allocate_level_post:
  assumes "allocate_level lev a = Some b"
  shows "\<exists>sw ei e. mg_sweeper a lev = Some sw \<and> encap sw = Some ei
           \<and> lookup (encaps a) ei = Some (Some e)
           \<and> lookup (sweepers b) lev = Some (Some (sw\<lparr>Q := replicate (nat (nnodes sw)) e\<rparr>))"
    and "k \<noteq> lev \<Longrightarrow> lookup (sweepers b) k = lookup (sweepers a) k"
    and "encaps b = encaps a" and "mg_nlevels b = mg_nlevels a"
    and "length (sweepers b) = length (sweepers a)"
proof -
  from assms obtain sw ei eo e sws where
    sw: "mg_sweeper a lev = Some sw" and ei: "encap sw = Some ei" and
    eo: "lookup (encaps a) ei = Some eo" and e: "eo = Some e" and
    sws: "store (sweepers a) lev (Some (sw\<lparr>Q := replicate (nat (nnodes sw)) e\<rparr>)) = Some sws" and
    b: "b = a\<lparr>sweepers := sws\<rparr>"
    unfolding allocate_level_def bind_eq_Some_conv option.inject by blast
  show "\<exists>sw ei e. mg_sweeper a lev = Some sw \<and> encap sw = Some ei
           \<and> lookup (encaps a) ei = Some (Some e)
           \<and> lookup (sweepers b) lev = Some (Some (sw\<lparr>Q := replicate (nat (nnodes sw)) e\<rparr>))"
    using sw ei eo e by (simp add: b lookup_store[OF sws])
  show "k \<noteq> lev \<Longrightarrow> lookup (sweepers b) k = lookup (sweepers a) k"
    by (simp add: b lookup_store[OF sws])
  show "encaps b = encaps a" "mg_nlevels b = mg_nlevels a" by (simp_all add: b)
  show "length (sweepers b) = length (sweepers a)" by (simp add: b store_length[OF sws])
qed

lemma allocate_level_total:
  assumes "mg_sweeper a lev = Some sw" and "encap sw = Some ei"
    and "lookup (encaps a) ei = Some (Some e)"
  shows "\<exists>b. allocate_level lev a = Some b"
proof -
  from assms(1) have "0 \<le> lev" "lev < int (length (sweepers a))"
    by (simp_all add: mg_sweeper_Some lookup_Some_iff)
  then show ?thesis using assms by (simp add: allocate_level_def store_def)
qed

lemma allocated_attached:
  "(attached lev sw0)\<lparr>Q := replicate (nat (nnodes (attached lev sw0))) (build_encap P a lev)\<rparr>
     = allocated P a lev sw0"
  "(allocated P a lev sw0)\<lparr>Q := replicate (nat (nnodes (allocated P a lev sw0))) (build_encap P a lev)\<rparr>
     = allocated P a lev sw0"
  "encap (attached lev sw0) = Some lev" "encap (allocated P a lev sw0) = Some lev"
  by (simp_all add: attached_def allocated_def)

lemma upto_length_nlevels: "[0..int (length [0..F]) - 1] = [0..F]"
  by (cases "0 \<le> F") simp_all

lemma destroy_loop_post:
  assumes "forM ks destroy_level a = Some b"
  shows "\<forall>k \<in> set ks. lookup (sweepers b) k = Some None"
    and "\<forall>k. k \<notin> set ks \<longrightarrow> lookup (sweepers b) k = lookup (sweepers a) k"
    and "length (sweepers b) = length (sweepers a)"
    and "length (encaps b) = length (encaps a)"
    and "mg_nlevels b = mg_nlevels a" and "amr b = amr a"
proof -
  let ?I = "\<lambda>ys c. (\<forall>k \<in> set ys. lookup (sweepers c) k = Some None)
      \<and> (\<forall>k. k \<notin> set ys \<longrightarrow> lookup (sweepers c) k = lookup (sweepers a) k)
      \<and> length (sweepers c) = length (sweepers a)
      \<and> length (encaps c) = length (encaps a)
      \<and> mg_nlevels c = mg_nlevels a \<and> amr c = amr a"
  have "?I ks b"
    using assms
  proof (rule forM_indexed[where I="?I"])
    show "?I [] a" by simp
  next
    fix ys lev c d
    assume c: "?I ys c" and d: "destroy_level lev c = Some d"
    have "lookup (sweepers d) k = Some None" if "k \<in> set (ys @ [lev])" for k
      using that c destroy_level_post(1)[OF d] destroy_level_post(2)[OF d, of k]
      by (cases "k = lev") auto
    moreover have "lookup (sweepers d) k = lookup (sweepers a) k" if "k \<notin> set (ys @ [lev])" for k
      using that c destroy_level_post(2)[OF d, of k] by auto
    moreover have "amr d = amr c" using destroy_level_keeps[OF d] by (simp add: keeps_def)
    ultimately show "?I (ys @ [lev]) d"
      using c destroy_level_post(4,5,6)[OF d] by simp
  qed
  then show "\<forall>k \<in> set ks. lookup (sweepers b) k = Some None"
    and "\<forall>k. k \<notin> set ks \<longrightarrow> lookup (sweepers b) k = lookup (sweepers a) k"
    and "length (sweepers b) = length (sweepers a)"
    and "length (encaps b) = length (encaps a)"
    and "mg_nlevels b = mg_nlevels a" and "amr b = amr a"
    by blast+
qed

lemma rebuild_loop_post:
  assumes "forM ks (rebuild_level P) a = Some b"
  shows "\<forall>k \<in> set ks. \<exists>sw0. rns_sdc_build_level k = Some sw0
            \<and> lookup (sweepers b) k = Some (Some (attached k sw0))
            \<and> lookup (encaps b) k = Some (Some (build_encap P (amr a) k))
            \<and> (\<exists>L. lookup (amr_level (amr a)) k = Some L)"
    and "\<forall>k. k \<notin> set ks \<longrightarrow> lookup (sweepers b) k = lookup (sweepers a) k"
    and "length (sweepers b) = length (sweepers a)"
    and "length (encaps b) = length (encaps a)"
    and "mg_nlevels b = mg_nlevels a + int (length ks)" and "amr b = amr a"
proof -
  let ?built = "\<lambda>c k. \<exists>sw0. rns_sdc_build_level k = Some sw0
            \<and> lookup (sweepers c) k = Some (Some (attached k sw0))
            \<and> lookup (encaps c) k = Some (Some (build_encap P (amr a) k))
            \<and> (\<exists>L. lookup (amr_level (amr a)) k = Some L)"
  let ?I = "\<lambda>ys c. (\<forall>k \<in> set ys. ?built c k)
      \<and> (\<forall>k. k \<notin> set ys \<longrightarrow> lookup (sweepers c) k = lookup (sweepers a) k)
      \<and> length (sweepers c) = length (sweepers a)
      \<and> length (encaps c) = length (encaps a)
      \<and> mg_nlevels c = mg_nlevels a + int (length ys) \<and> amr c = amr a"
  have "?I ks b"
    using assms
  proof (rule forM_indexed[where I="?I"])
    show "?I [] a" by simp
  next
    fix ys lev c d
    assume c: "?I ys c" and d: "rebuild_level P lev c = Some d"
    from c have ac: "amr c = amr a" by simp
    have "?built d k" if "k \<in> set (ys @ [lev])" for k
    proof (cases "k = lev")
      case True
      with rebuild_level_post(1,2,9)[OF d] ac show ?thesis by simp
    next
      case False
      with that c have "?built c k" by simp
      with rebuild_level_post(3,4)[OF d False] show ?thesis by simp
    qed
    moreover have "lookup (sweepers d) k = lookup (sweepers a) k" if "k \<notin> set (ys @ [lev])" for k
      using that c rebuild_level_post(3)[OF d, of k] by auto
    ultimately show "?I (ys @ [lev]) d"
      using c rebuild_level_post(5,6,7,8)[OF d] by simp
  qed
  then show "\<forall>k \<in> set ks. ?built b k"
    and "\<forall>k. k \<notin> set ks \<longrightarrow> lookup (sweepers b) k = lookup (sweepers a) k"
    and "length (sweepers b) = length (sweepers a)"
    and "length (encaps b) = length (encaps a)"
    and "mg_nlevels b = mg_nlevels a + int (length ks)" and "amr b = amr a"
    by blast+
qed

lemma allocate_loop_post:
  assumes "forM ks allocate_level a = Some b"
    and "\<forall>k \<in> set ks. \<exists>sw0. lookup (sweepers a) k = Some (Some (attached k sw0))
            \<and> lookup (encaps a) k = Some (Some (build_encap P A k))"
  shows "\<forall>k \<in> set ks. \<exists>sw0. lookup (sweepers a) k = Some (Some (attached k sw0))
            \<and> lookup (sweepers b) k = Some (Some (allocated P A k sw0))"
    and "\<forall>k. k \<notin> set ks \<longrightarrow> lookup (sweepers b) k = lookup (sweepers a) k"
    and "encaps b = encaps a" and "mg_nlevels b = mg_nlevels a"
    and "length (sweepers b) = length (sweepers a)"
proof -
  let ?I = "\<lambda>ys c.
        (\<forall>k \<in> set ks. \<exists>sw0. lookup (sweepers a) k = Some (Some (attached k sw0))
            \<and> lookup (sweepers c) k
                = Some (Some (if k \<in> set ys then allocated P A k sw0 else attached k sw0)))
      \<and> (\<forall>k. k \<notin> set ks \<longrightarrow> lookup (sweepers c) k = lookup (sweepers a) k)
      \<and> encaps c = encaps a \<and> mg_nlevels c = mg_nlevels a
      \<and> length (sweepers c) = length (sweepers a)"
  have "?I ks b"
    using assms(1)
  proof (rule forM_indexed[where I="?I"])
    show "?I [] a" using assms(2) by auto
  next
    fix ys lev c d
    assume c: "?I ys c" and d: "allocate_level lev c = Some d" and lev: "lev \<in> set ks"
    from c lev obtain sw0 where
      sw0: "lookup (sweepers a) lev = Some (Some (attached lev sw0))"
        "lookup (sweepers c) lev
                = Some (Some (if lev \<in> set ys then allocated P A lev sw0 else attached lev sw0))"
      by blast
    from assms(2) lev c have e: "lookup (encaps c) lev = Some (Some (build_encap P A lev))"
      by auto
    from allocate_level_post(1)[OF d] obtain sw ei e' where
      sw: "mg_sweeper c lev = Some sw" "encap sw = Some ei"
        "lookup (encaps c) ei = Some (Some e')"
        "lookup (sweepers d) lev = Some (Some (sw\<lparr>Q := replicate (nat (nnodes sw)) e'\<rparr>))"
      by blast
    from sw(1) sw0(2) have sweq:
      "sw = (if lev \<in> set ys then allocated P A lev sw0 else attached lev sw0)"
      by (simp add: mg_sweeper_Some)
    with sw(2) have "ei = lev" by (simp add: allocated_attached split: if_splits)
    with sw(3) e have "e' = build_encap P A lev" by simp
    with sw(4) sweq have new: "lookup (sweepers d) lev = Some (Some (allocated P A lev sw0))"
      by (simp add: allocated_attached split: if_splits)
    have "\<exists>sw0. lookup (sweepers a) k = Some (Some (attached k sw0))
            \<and> lookup (sweepers d) k
                = Some (Some (if k \<in> set (ys @ [lev]) then allocated P A k sw0 else attached k sw0))"
      if "k \<in> set ks" for k
    proof (cases "k = lev")
      case True
      with sw0(1) new show ?thesis by auto
    next
      case False
      with that c allocate_level_post(2)[OF d False] show ?thesis by simp
    qed
    moreover have "lookup (sweepers d) k = lookup (sweepers a) k" if "k \<notin> set ks" for k
      using that c lev allocate_level_post(2)[OF d, of k] by auto
    ultimately show "?I (ys @ [lev]) d"
      using c allocate_level_post(3,4,5)[OF d] by simp
  qed
  then show "\<forall>k \<in> set ks. \<exists>sw0. lookup (sweepers a) k = Some (Some (attached k sw0))
            \<and> lookup (sweepers b) k = Some (Some (allocated P A k sw0))"
    and "\<forall>k. k \<notin> set ks \<longrightarrow> lookup (sweepers b) k = lookup (sweepers a) k"
    and "encaps b = encaps a" and "mg_nlevels b = mg_nlevels a"
    and "length (sweepers b) = length (sweepers a)"
    by auto
qed

lemma rebuild_mlsdc_post:
  assumes "rebuild_mlsdc P s = Some s'"
  shows "mg_nlevels s' = int (length [0..finest_level (amr s)])"
    and "\<forall>k \<in> set [0..finest_level (amr s)]. \<exists>sw0. rns_sdc_build_level k = Some sw0
            \<and> lookup (sweepers s') k = Some (Some (allocated P (amr s) k sw0))
            \<and> lookup (encaps s') k = Some (Some (build_encap P (amr s) k))
            \<and> (\<exists>L. lookup (amr_level (amr s)) k = Some L)"
    and "\<forall>k \<in> set [0..max_level (amr s)]. k \<notin> set [0..finest_level (amr s)]
            \<longrightarrow> lookup (sweepers s') k = Some None"
    and "0 \<le> max_level (amr s)"
proof -
  let ?s0 = "s\<lparr>mg_nlevels := 0, trace := trace s @ [Ev_rebuild_mlsdc]\<rparr>"
  let ?F = "finest_level (amr s)"
  from assms show ml: "0 \<le> max_level (amr s)"
    by (simp add: rebuild_mlsdc_def split: if_splits)
  with assms obtain s1 s2 where
    1: "forM [0..max_level (amr s)] destroy_level ?s0 = Some s1" and
    2: "forM [0..finest_level (amr s1)] (rebuild_level P) s1 = Some s2" and
    3: "forM [0..mg_nlevels s2 - 1] allocate_level s2 = Some s'"
    by (auto simp: rebuild_mlsdc_def sdc_mg_allocate_def Let_def bind_eq_Some_conv)
  note d = destroy_loop_post[OF 1]
  have a1: "amr s1 = amr s" using d(6) by simp
  note b = rebuild_loop_post[OF 2, unfolded a1]
  have n2: "mg_nlevels s2 = int (length [0..?F])" using b(5) d(5) by simp
  have al: "forM [0..?F] allocate_level s2 = Some s'"
    using 3 unfolding n2 upto_length_nlevels .
  have pre: "\<forall>k \<in> set [0..?F]. \<exists>sw0. lookup (sweepers s2) k = Some (Some (attached k sw0))
            \<and> lookup (encaps s2) k = Some (Some (build_encap P (amr s) k))"
    using b(1) by blast
  note c = allocate_loop_post[OF al pre]
  show "mg_nlevels s' = int (length [0..?F])" using c(4) n2 by simp
  show "\<forall>k \<in> set [0..?F]. \<exists>sw0. rns_sdc_build_level k = Some sw0
            \<and> lookup (sweepers s') k = Some (Some (allocated P (amr s) k sw0))
            \<and> lookup (encaps s') k = Some (Some (build_encap P (amr s) k))
            \<and> (\<exists>L. lookup (amr_level (amr s)) k = Some L)"
  proof
    fix k assume k: "k \<in> set [0..?F]"
    from b(1) k obtain sw0 where
      sw0: "rns_sdc_build_level k = Some sw0"
        "lookup (sweepers s2) k = Some (Some (attached k sw0))"
        "lookup (encaps s2) k = Some (Some (build_encap P (amr s) k))"
        "\<exists>L. lookup (amr_level (amr s)) k = Some L"
      by blast
    from c(1) k obtain sw1 where
      sw1: "lookup (sweepers s2) k = Some (Some (attached k sw1))"
        "lookup (sweepers s') k = Some (Some (allocated P (amr s) k sw1))"
      by blast
    from sw0(2) sw1(1) have "attached k sw1 = attached k sw0" by simp
    then have "allocated P (amr s) k sw1 = allocated P (amr s) k sw0"
      unfolding allocated_attached(1)[symmetric] by simp
    with sw0 sw1(2) c(3) show "\<exists>sw0. rns_sdc_build_level k = Some sw0
            \<and> lookup (sweepers s') k = Some (Some (allocated P (amr s) k sw0))
            \<and> lookup (encaps s') k = Some (Some (build_encap P (amr s) k))
            \<and> (\<exists>L. lookup (amr_level (amr s)) k = Some L)"
      by auto
  qed
  show "\<forall>k \<in> set [0..max_level (amr s)]. k \<notin> set [0..?F]
            \<longrightarrow> lookup (sweepers s') k = Some None"
    using d(1) b(2) c(2) by simp
qed

text \<open>When rebuild_mlsdc runs through.\<close>

lemma rebuild_mlsdc_total:
  assumes "0 \<le> max_level (amr s)"
    and "\<forall>k \<in> set [0..max_level (amr s)]. \<exists>p. lookup (sweepers s) k = Some p
            \<and> (p \<noteq> None \<longrightarrow> (\<exists>e. lookup (encaps s) k = Some (Some e)))"
    and "\<forall>k \<in> set [0..finest_level (amr s)].
            k < int (length (sweepers s)) \<and> k < int (length (encaps s))
            \<and> (\<exists>sw0 :: 'v sdc_sweeper. rns_sdc_build_level k = Some sw0)
            \<and> (\<exists>L. lookup (amr_level (amr s)) k = Some L)"
  shows "\<exists>s'. rebuild_mlsdc P (s :: 'v sdcamr) = Some s'"
proof -
  let ?s0 = "s\<lparr>mg_nlevels := 0, trace := trace s @ [Ev_rebuild_mlsdc]\<rparr>"
  let ?F = "finest_level (amr s)"
  let ?J = "\<lambda>a :: 'v sdcamr. \<forall>k \<in> set [0..max_level (amr s)]. \<exists>p. lookup (sweepers a) k = Some p
            \<and> (p \<noteq> None \<longrightarrow> (\<exists>e. lookup (encaps a) k = Some (Some e)))"
  have "\<exists>s1. forM [0..max_level (amr s)] destroy_level ?s0 = Some s1 \<and> ?J s1"
  proof (rule forM_total[where J="?J"])
    show "?J ?s0" using assms(2) by simp
  next
    fix lev a assume lev: "lev \<in> set [0..max_level (amr s)]" and a: "?J a"
    from a lev obtain p where p: "lookup (sweepers a) lev = Some p"
      "p \<noteq> None \<longrightarrow> (\<exists>e. lookup (encaps a) lev = Some (Some e))" by blast
    from destroy_level_total[OF p(1)] p(2) obtain b where b: "destroy_level lev a = Some b"
      by blast
    have "\<exists>p. lookup (sweepers b) k = Some p
            \<and> (p \<noteq> None \<longrightarrow> (\<exists>e. lookup (encaps b) k = Some (Some e)))"
      if "k \<in> set [0..max_level (amr s)]" for k
    proof (cases "k = lev")
      case True
      with destroy_level_post(1)[OF b] show ?thesis by simp
    next
      case False
      with a that destroy_level_post(2,3)[OF b False] show ?thesis by simp
    qed
    with b show "\<exists>b. destroy_level lev a = Some b \<and> ?J b" by blast
  qed
  then obtain s1 where 1: "forM [0..max_level (amr s)] destroy_level ?s0 = Some s1" by blast
  note d = destroy_loop_post[OF 1]
  have a1: "amr s1 = amr s" using d(6) by simp
  let ?J2 = "\<lambda>a :: 'v sdcamr. length (sweepers a) = length (sweepers s)
      \<and> length (encaps a) = length (encaps s) \<and> amr a = amr s"
  have "\<exists>s2. forM [0..?F] (rebuild_level P) s1 = Some s2 \<and> ?J2 s2"
  proof (rule forM_total[where J="?J2"])
    show "?J2 s1" using d by simp
  next
    fix lev a assume lev: "lev \<in> set [0..?F]" and a: "?J2 a"
    from assms(3) lev obtain sw0 :: "'v sdc_sweeper" and L where
      "lev < int (length (sweepers s))" "lev < int (length (encaps s))"
      "rns_sdc_build_level lev = Some sw0" "lookup (amr_level (amr s)) lev = Some L"
      by blast
    moreover from lev have "0 \<le> lev" by simp
    ultimately obtain b where b: "rebuild_level P lev a = Some b"
      using rebuild_level_total[of lev a sw0 L P] a by auto
    from rebuild_level_post(5,6,8)[OF b] a have "?J2 b" by simp
    with b show "\<exists>b. rebuild_level P lev a = Some b \<and> ?J2 b" by blast
  qed
  then obtain s2 where 2: "forM [0..?F] (rebuild_level P) s1 = Some s2" by blast
  note b = rebuild_loop_post[OF 2, unfolded a1]
  have n2: "mg_nlevels s2 = int (length [0..?F])" using b(5) d(5) by simp
  let ?J3 = "\<lambda>a :: 'v sdcamr. encaps a = encaps s2 \<and> mg_nlevels a = mg_nlevels s2
      \<and> (\<forall>k \<in> set [0..?F]. \<exists>sw. lookup (sweepers a) k = Some (Some sw) \<and> encap sw = Some k)"
  have "\<exists>s'. forM [0..?F] allocate_level s2 = Some s' \<and> ?J3 s'"
  proof (rule forM_total[where J="?J3"])
    show "?J3 s2" using b(1) by (auto simp: allocated_attached)
  next
    fix lev a assume lev: "lev \<in> set [0..?F]" and a: "?J3 a"
    from a lev obtain sw where sw: "lookup (sweepers a) lev = Some (Some sw)" "encap sw = Some lev"
      by blast
    from lev have "lev < int (length [0..?F])" by simp
    with sw(1) a n2 have m: "mg_sweeper a lev = Some sw" by (simp add: mg_sweeper_Some)
    from b(1) lev a have e: "lookup (encaps a) lev = Some (Some (build_encap P (amr s) lev))"
      by auto
    from allocate_level_total[OF m sw(2) e] obtain c where c: "allocate_level lev a = Some c"
      by blast
    from allocate_level_post(1)[OF c] m obtain e' where
      new: "lookup (sweepers c) lev = Some (Some (sw\<lparr>Q := replicate (nat (nnodes sw)) e'\<rparr>))"
      by auto
    have "\<exists>sw. lookup (sweepers c) k = Some (Some sw) \<and> encap sw = Some k"
      if "k \<in> set [0..?F]" for k
    proof (cases "k = lev")
      case True
      with new sw(2) show ?thesis by simp
    next
      case False
      with a that allocate_level_post(2)[OF c False] show ?thesis by simp
    qed
    with c a allocate_level_post(3,4)[OF c] show "\<exists>c. allocate_level lev a = Some c \<and> ?J3 c"
      by auto
  qed
  then obtain s' where "forM [0..?F] allocate_level s2 = Some s'" by blast
  then have 3: "sdc_mg_allocate s2 = Some s'"
    unfolding sdc_mg_allocate_def n2 upto_length_nlevels .
  show ?thesis
    using assms(1) 1 2 3 by (simp add: rebuild_mlsdc_def a1)
qed

text \<open>
  C8. After a \<open>rebuild_mlsdc\<close>, a second one runs through and leaves the same
  hierarchy: the same number of levels in the orchestrator and, at every level,
  the same sweeper (node count, context, encapsulation and node storage), on the
  same mesh.
\<close>

theorem rebuild_idempotent:
  "rebuild_mlsdc P s = Some s1 \<Longrightarrow>
     \<exists>s2. rebuild_mlsdc P s1 = Some s2
        \<and> mg_nlevels s2 = mg_nlevels s1
        \<and> (\<forall>lev. mg_sweeper s2 lev = mg_sweeper s1 lev)
        \<and> amr s2 = amr s1"
proof -
  assume r: "rebuild_mlsdc P s = Some s1"
  note p = rebuild_mlsdc_post[OF r]
  have a1: "amr s1 = amr s" using rebuild_mlsdc_amr[OF r] by simp
  let ?F = "finest_level (amr s)"
  have "\<exists>s2. rebuild_mlsdc P s1 = Some s2"
  proof (rule rebuild_mlsdc_total)
    show "0 \<le> max_level (amr s1)" using p(4) a1 by simp
    show "\<forall>k \<in> set [0..max_level (amr s1)]. \<exists>p. lookup (sweepers s1) k = Some p
            \<and> (p \<noteq> None \<longrightarrow> (\<exists>e. lookup (encaps s1) k = Some (Some e)))"
    proof
      fix k assume k: "k \<in> set [0..max_level (amr s1)]"
      show "\<exists>p. lookup (sweepers s1) k = Some p
            \<and> (p \<noteq> None \<longrightarrow> (\<exists>e. lookup (encaps s1) k = Some (Some e)))"
      proof (cases "k \<in> set [0..?F]")
        case True
        with p(2) show ?thesis by fastforce
      next
        case False
        with p(3) k a1 show ?thesis by simp
      qed
    qed
    show "\<forall>k \<in> set [0..finest_level (amr s1)].
            k < int (length (sweepers s1)) \<and> k < int (length (encaps s1))
            \<and> (\<exists>sw0 :: 'a sdc_sweeper. rns_sdc_build_level k = Some sw0)
            \<and> (\<exists>L. lookup (amr_level (amr s1)) k = Some L)"
      unfolding a1 using p(2) by (fastforce simp: lookup_Some_iff)
  qed
  then obtain s2 where r2: "rebuild_mlsdc P s1 = Some s2" by blast
  note q = rebuild_mlsdc_post[OF r2, unfolded a1]
  have n: "mg_nlevels s2 = mg_nlevels s1" using p(1) q(1) by simp
  have "mg_sweeper s2 lev = mg_sweeper s1 lev" for lev
  proof (cases "lev \<in> set [0..?F]")
    case True
    from p(2) True obtain sw0 where
      1: "rns_sdc_build_level lev = Some sw0"
        "lookup (sweepers s1) lev = Some (Some (allocated P (amr s) lev sw0))" by blast
    from q(2) True obtain sw1 where
      2: "rns_sdc_build_level lev = Some sw1"
        "lookup (sweepers s2) lev = Some (Some (allocated P (amr s) lev sw1))" by blast
    from 1 2 n show ?thesis by (simp add: mg_sweeper_def)
  next
    case False
    then have "lev < 0 \<or> mg_nlevels s1 \<le> lev" using p(1) by auto
    then show ?thesis using n by (auto simp: mg_sweeper_def lookup_def)
  qed
  with r2 n rebuild_mlsdc_amr[OF r2] show ?thesis by blast
qed

theorem rebuild_idempotent_witness:
  "\<exists>s1 s2. rebuild_mlsdc P0 s0_two = Some s1 \<and> rebuild_mlsdc P0 s1 = Some s2
      \<and> mg_nlevels s2 = mg_nlevels s1
      \<and> mg_sweeper s2 0 = mg_sweeper s1 0 \<and> mg_sweeper s2 1 = mg_sweeper s1 1"
proof -
  have "map_option max_iters (rebuild_mlsdc P0 s0_two) = Some 2" by code_simp
  then obtain s1 where s1: "rebuild_mlsdc P0 s0_two = Some s1"
    by (auto dest: some_of_map_option)
  from rebuild_idempotent[OF s1] s1 show ?thesis by blast
qed

subsection \<open>Node counts of the hierarchy\<close>

text \<open>
  C2. The sweeper that \<open>rns_sdc_build_level\<close> builds for a level \<open>lev \<ge> 0\<close> has
  \<open>1 + (nnodes0 - 1) * trat ^ lev\<close> nodes, with the base node count \<open>nnodes0 = 3\<close>
  and the refinement ratio \<open>trat = 2\<close> of the code; it builds one for every level
  from 0 to 29, the levels whose node count fits the 32-bit \<open>int\<close> in which the
  code computes it; and after \<open>rebuild_mlsdc\<close> the sweeper of every level \<open>k\<close> of
  the hierarchy has that number of nodes, and as many node solutions.
\<close>

theorem build_level_nnodes:
  fixes sw :: "'v sdc_sweeper" and P :: "'v provider"
  shows "(rns_sdc_build_level lev = Some sw \<and> 0 \<le> lev
            \<longrightarrow> nnodes sw = 1 + (3 - 1) * 2 ^ nat lev)
       \<and> (0 \<le> lev \<and> lev \<le> 29
            \<longrightarrow> (\<exists>sw' :: 'v sdc_sweeper. rns_sdc_build_level lev = Some sw'))
       \<and> (rebuild_mlsdc P s = Some s' \<and> 0 \<le> k \<and> k \<le> finest_level (amr s)
            \<longrightarrow> (\<exists>sw1. mg_sweeper s' k = Some sw1
                   \<and> nnodes sw1 = 1 + (3 - 1) * 2 ^ nat k
                   \<and> int (length (Q sw1)) = nnodes sw1))"
proof (intro conjI impI)
  assume h: "rns_sdc_build_level lev = Some sw \<and> 0 \<le> lev"
  then show "nnodes sw = 1 + (3 - 1) * 2 ^ nat lev"
    using rns_nnodes_formula[of lev sw] by simp
next
  assume h: "0 \<le> lev \<and> lev \<le> 29"
  define x :: int where "x = 2 ^ nat lev"
  from h have "nat lev \<le> 29" by arith
  then have "(2::int) ^ nat lev \<le> 2 ^ 29" by (rule power_increasing) simp
  then have b: "x \<le> 536870912" by (simp add: x_def)
  have p: "0 < x" by (simp add: x_def)
  have "c_int x = Some x" using b p by (simp add: c_int_def)
  then have 1: "int_pow 2 lev = Some x" using h by (simp add: int_pow_def x_def)
  have 2: "c_int (2 * x) = Some (2 * x)" using b p by (simp add: c_int_def)
  have 3: "c_int (1 + 2 * x) = Some (1 + 2 * x)" using b p by (simp add: c_int_def)
  show "\<exists>sw' :: 'v sdc_sweeper. rns_sdc_build_level lev = Some sw'"
    by (simp add: rns_sdc_build_level_def Let_def 1 2 3)
next
  assume h: "rebuild_mlsdc P s = Some s' \<and> 0 \<le> k \<and> k \<le> finest_level (amr s)"
  then have r: "rebuild_mlsdc P s = Some s'" and k: "k \<in> set [0..finest_level (amr s)]"
    by simp_all
  from rebuild_mlsdc_post(2)[OF r] k obtain sw0 where
    sw0: "rns_sdc_build_level k = Some sw0"
      "lookup (sweepers s') k = Some (Some (allocated P (amr s) k sw0))"
    by blast
  from k have "k < int (length [0..finest_level (amr s)])" by simp
  with sw0(2) rebuild_mlsdc_post(1)[OF r]
  have m: "mg_sweeper s' k = Some (allocated P (amr s) k sw0)"
    by (simp add: mg_sweeper_Some)
  have n: "nnodes sw0 = 1 + (3 - 1) * 2 ^ nat k"
    using sw0(1) h rns_nnodes_formula[of k sw0] by simp
  then have "0 \<le> nnodes sw0" by simp
  with m n show "\<exists>sw1. mg_sweeper s' k = Some sw1
                   \<and> nnodes sw1 = 1 + (3 - 1) * 2 ^ nat k
                   \<and> int (length (Q sw1)) = nnodes sw1"
    by (simp add: allocated_def)
qed

theorem build_level_nnodes_witness:
  "rns_sdc_build_level 1 = Some (\<lparr>nnodes = 5, ctx = None, encap = None, Q = []\<rparr> :: nat sdc_sweeper)
   \<and> (\<exists>sw' :: nat sdc_sweeper. rns_sdc_build_level 29 = Some sw')
   \<and> (\<exists>s' sw1. rebuild_mlsdc P0 s0_two = Some s' \<and> mg_sweeper s' 1 = Some sw1
         \<and> nnodes sw1 = 5 \<and> length (Q sw1) = 5)"
proof -
  let ?sw = "\<lparr>nnodes = 5, ctx = None, encap = None, Q = []\<rparr> :: nat sdc_sweeper"
  have e: "rns_sdc_build_level 1 = Some ?sw"
    by (simp add: rns_sdc_build_level_def int_pow_def c_int_def)
  have "map_option max_iters (rebuild_mlsdc P0 s0_two) = Some 2" by code_simp
  then obtain s' where s': "rebuild_mlsdc P0 s0_two = Some s'"
    by (auto dest: some_of_map_option)
  have f: "finest_level (amr s0_two) = 1" by (simp add: s0_two_def)
  show ?thesis
    using e build_level_nnodes[of 1 ?sw P0 s0_two s' 1] build_level_nnodes[of 29 ?sw P0 s0_two s' 1]
      s' f
    by auto
qed

subsection \<open>The hierarchy at the seeding\<close>

lemma upto_nlevels: "int (length [0..F]) = max 0 (F + 1)"
  by simp

lemma rebuild_mlsdc_rebuilt:
  assumes "rebuild_mlsdc P s = Some s'"
  shows "rebuilt_for P (amr s) s'"
  using rebuild_mlsdc_post(1,2,3)[OF assms]
  unfolding rebuilt_for_def upto_nlevels by blast

lemma regrid_rebuilt:
  assumes "regrid P lbase time initial s = Some s'"
  shows "rebuilt_for P (amr s') s'"
proof -
  from assms obtain s1 where 1: "rebuild_mlsdc P s1 = Some s'"
    by (auto simp: regrid_def Let_def split: prod.splits)
  from rebuild_mlsdc_rebuilt[OF 1] rebuild_mlsdc_amr[OF 1] show ?thesis by simp
qed

lemma rebuilt_fresh: "rebuilt_for P (amr s) s \<Longrightarrow> fresh P s"
  unfolding fresh_def same_mesh_def by blast

lemma rebuilt_for_cong:
  "rebuilt_for P a s \<Longrightarrow> sweepers s' = sweepers s \<Longrightarrow> mg_nlevels s' = mg_nlevels s
     \<Longrightarrow> rebuilt_for P a s'"
  by (simp add: rebuilt_for_def)

lemma regrid_body_fresh:
  assumes "regrid_body P time stop_time i s = Some s'" and "okToRegrid P (amr s) i"
  shows "fresh P s'"
proof -
  from assms obtain s1 where
    1: "regrid P i time False s = Some s1" and
    2: "forM [i..finest_level (amr s1)] reset_count
          (s1\<lparr>amr := (amr s1)\<lparr>dt_level := computeNewDt P (amr s1) stop_time\<rparr>,
               trace := trace s1 @ [Ev_computeNewDt]\<rparr>) = Some s'"
    by (auto simp: regrid_body_def Let_def split: bind_splits)
  let ?s2 = "s1\<lparr>amr := (amr s1)\<lparr>dt_level := computeNewDt P (amr s1) stop_time\<rparr>,
               trace := trace s1 @ [Ev_computeNewDt]\<rparr>"
  have "max_level (amr s') = max_level (amr ?s2) \<and> finest_level (amr s') = finest_level (amr ?s2)
     \<and> amr_level (amr s') = amr_level (amr ?s2)
     \<and> sweepers s' = sweepers ?s2 \<and> mg_nlevels s' = mg_nlevels ?s2"
    using 2
    by (rule forM_invariant[where I="\<lambda>x. max_level (amr x) = max_level (amr ?s2)
         \<and> finest_level (amr x) = finest_level (amr ?s2)
         \<and> amr_level (amr x) = amr_level (amr ?s2)
         \<and> sweepers x = sweepers ?s2 \<and> mg_nlevels x = mg_nlevels ?s2"])
      (auto dest: reset_count_max_level)
  then have m: "same_mesh (amr s1) (amr s')" and
    q: "sweepers s' = sweepers s1" "mg_nlevels s' = mg_nlevels s1"
    by (simp_all add: same_mesh_def)
  from rebuilt_for_cong[OF regrid_rebuilt[OF 1] q] m show ?thesis
    unfolding fresh_def by blast
qed

lemma regrid_loop_fresh:
  "regrid_loop P time stop_time i lev_top s = Some s' \<Longrightarrow>
     fresh P s \<or> (\<exists>j \<in> set [i..lev_top]. okToRegrid P (amr s) j) \<Longrightarrow> fresh P s'"
proof (induction P time stop_time i lev_top s rule: regrid_loop.induct)
  case (1 P time stop_time i lev_top s)
  show ?case
  proof (cases "i \<le> lev_top")
    case False
    with "1.prems" show ?thesis by simp
  next
    case True
    with "1.prems"(1) obtain s1 where
      b: "regrid_body P time stop_time i s = Some s1" and
      r: "regrid_loop P time stop_time (i + 1)
            (if finest_level (amr s) > finest_level (amr s1)
             then min (finest_level (amr s1)) (max_level (amr s1) - 1) else lev_top) s1 = Some s'"
      by (auto split: option.splits)
    note ih = "1.IH"[OF True b r]
    show ?thesis
    proof (cases "okToRegrid P (amr s) i")
      case True
      from regrid_body_fresh[OF b True] ih show ?thesis by blast
    next
      case False
      with b have e: "s1 = s" by (simp add: regrid_body_def)
      from "1.prems"(2) False True
      have "fresh P s \<or> (\<exists>j \<in> set [i + 1..lev_top]. okToRegrid P (amr s) j)"
        by (auto simp: upto_rec1[of i lev_top])
      with ih e show ?thesis by simp
    qed
  qed
qed

lemma regrid_phase_fresh:
  assumes "regrid_phase P level time stop_time s = Some sb"
    and "fresh P s \<or> lookup (sweepers s) 0 = Some None \<or> \<not> no_regrid P level s"
  shows "fresh P sb"
proof -
  from assms(1) obtain p s1 where
    p: "lookup (sweepers s) 0 = Some p" and
    n: "p = None \<longrightarrow> rebuild_mlsdc P s = Some s1" and
    m: "p \<noteq> None \<longrightarrow> s1 = s" and
    a: "amr s1 = amr s" and
    2: "regrid_loop P time stop_time level (lev_top0 s) s1 = Some sb"
    by (rule regrid_phase_parts)
  have "fresh P s1 \<or> (\<exists>j \<in> set [level..lev_top0 s]. okToRegrid P (amr s1) j)"
  proof (cases p)
    case None
    with n have "rebuild_mlsdc P s = Some s1" by simp
    from rebuild_mlsdc_rebuilt[OF this] a have "fresh P s1"
      unfolding fresh_def same_mesh_def by auto
    then show ?thesis ..
  next
    case (Some x)
    with m have "s1 = s" by simp
    with assms(2) p Some show ?thesis by (auto simp: no_regrid_def)
  qed
  with 2 show ?thesis by (rule regrid_loop_fresh)
qed

text \<open>
  C1. \<open>Regrid\<close> is the mesh regrid followed by the rebuild: it leaves the mesh
  that \<open>Amr::regrid\<close> returns, with the sweepers and the node storage that
  \<open>rebuild_mlsdc\<close> builds on that mesh. In any sequence of calls, a \<open>Step\<close> that
  follows a \<open>Regrid\<close> seeds a hierarchy rebuilt for the mesh as it is at the
  seeding; so does every \<open>Step\<close> that finds \<open>sweepers[0]\<close> null or whose regrid
  loop regrids a level, which it does wherever \<open>okToRegrid\<close> holds, whether or not
  the mesh changes. A \<open>Step\<close> that finds its sweepers in place and regrids nothing
  goes to the seeding with the controller as it found it, and does not rebuild. In
  the log, a \<open>Step\<close> rebuilds once for each call of \<open>Amr::regrid\<close> it makes, and
  once more when \<open>sweepers[0]\<close> is null; and no seeding copy into \<open>Q[0]\<close> is
  made between a call of \<open>Amr::regrid\<close> and the next \<open>rebuild_mlsdc\<close>.
\<close>

theorem regrid_triggers_rebuild:
  "(regrid P lbase rtime initial s = Some s2 \<longrightarrow>
        amr s2 = (amr s)\<lparr>finest_level := fst (Amr_regrid P (amr s) lbase rtime initial),
                          amr_level := snd (Amr_regrid P (amr s) lbase rtime initial)\<rparr>
      \<and> rebuilt_for P (amr s2) s2
      \<and> new_events s s2 = [Ev_Amr_regrid lbase, Ev_rebuild_mlsdc])
   \<and> (run P (cs @ [Regrid lbase rtime initial]) si = Some s
        \<and> timeStep_begin P level time stop_time s = Some s3 \<longrightarrow>
        (\<exists>sb. regrid_phase P level time stop_time s = Some sb \<and> seeding P time sb = Some s3
           \<and> fresh P sb))
   \<and> (timeStep_begin P level time stop_time s = Some s3 \<longrightarrow>
        (\<exists>sb. regrid_phase P level time stop_time s = Some sb \<and> seeding P time sb = Some s3
           \<and> (fresh P s \<or> lookup (sweepers s) 0 = Some None \<or> \<not> no_regrid P level s
                \<longrightarrow> fresh P sb)))
   \<and> ((\<exists>sw. lookup (sweepers s) 0 = Some (Some sw)) \<and> no_regrid P level s \<longrightarrow>
        regrid_phase P level time stop_time s = Some s
      \<and> timeStep_begin P level time stop_time s = seeding P time s)
   \<and> (timeStep P level time iteration niter stop_time s = Some s1
        \<and> lookup (sweepers s) 0 \<noteq> Some None \<and> no_regrid P level s
        \<longrightarrow> Ev_rebuild_mlsdc \<notin> set (new_events s s1))
   \<and> (timeStep P level time iteration niter stop_time s = Some s1 \<longrightarrow>
        length (filter (\<lambda>e. e = Ev_rebuild_mlsdc) (new_events s s1))
          = length (filter is_regrid (new_events s s1))
            + (if lookup (sweepers s) 0 = Some None then 1 else 0))
   \<and> (run P cs s = Some s' \<longrightarrow> stale_free False (new_events s s'))"
proof (intro conjI impI)
  assume r: "regrid P lbase rtime initial s = Some s2"
  show "amr s2 = (amr s)\<lparr>finest_level := fst (Amr_regrid P (amr s) lbase rtime initial),
                          amr_level := snd (Amr_regrid P (amr s) lbase rtime initial)\<rparr>"
    by (rule regrid_amr_eq[OF r])
  show "rebuilt_for P (amr s2) s2" by (rule regrid_rebuilt[OF r])
  from regrid_amr(2)[OF r] show "new_events s s2 = [Ev_Amr_regrid lbase, Ev_rebuild_mlsdc]"
    by (simp add: new_events_def)
next
  assume h: "run P (cs @ [Regrid lbase rtime initial]) si = Some s
        \<and> timeStep_begin P level time stop_time s = Some s3"
  then obtain a where "regrid P lbase rtime initial a = Some s"
    by (auto simp: run_def forM_append split: option.splits)
  then have f: "fresh P s" by (intro rebuilt_fresh regrid_rebuilt)
  from h obtain sb where
    r: "regrid_phase P level time stop_time s = Some sb" and sd: "seeding P time sb = Some s3"
    unfolding timeStep_begin_def bind_eq_Some_conv by blast
  from regrid_phase_fresh[OF r] f r sd
  show "\<exists>sb. regrid_phase P level time stop_time s = Some sb \<and> seeding P time sb = Some s3
           \<and> fresh P sb"
    by blast
next
  assume b: "timeStep_begin P level time stop_time s = Some s3"
  then obtain sb where
    r: "regrid_phase P level time stop_time s = Some sb" and sd: "seeding P time sb = Some s3"
    unfolding timeStep_begin_def bind_eq_Some_conv by blast
  from regrid_phase_fresh[OF r] r sd
  show "\<exists>sb. regrid_phase P level time stop_time s = Some sb \<and> seeding P time sb = Some s3
           \<and> (fresh P s \<or> lookup (sweepers s) 0 = Some None \<or> \<not> no_regrid P level s
                \<longrightarrow> fresh P sb)"
    by blast
next
  assume h: "(\<exists>sw. lookup (sweepers s) 0 = Some (Some sw)) \<and> no_regrid P level s"
  then obtain sw where sw: "lookup (sweepers s) 0 = Some (Some sw)" and n: "no_regrid P level s"
    by blast
  show 1: "regrid_phase P level time stop_time s = Some s"
    by (rule regrid_phase_none(1)[OF n sw])
  show "timeStep_begin P level time stop_time s = seeding P time s"
    by (simp add: timeStep_begin_def 1)
next
  assume h: "timeStep P level time iteration niter stop_time s = Some s1
        \<and> lookup (sweepers s) 0 \<noteq> Some None \<and> no_regrid P level s"
  then have t: "timeStep P level time iteration niter stop_time s = Some s1" by simp
  from t obtain sb s3 s4 s5 s6 s7 where
    r: "regrid_phase P level time stop_time s = Some sb" and
    3: "seeding P time sb = Some s3" and
    4: "set_times time s3 = Some s4" and
    5: "spread P time s4 = Some s5" and
    6: "sweeping P time s5 = Some s6" and
    7: "finalizing s6 = Some s7" and
    8: "bump_counters level s7 = Some s1"
    by (rule timeStep_parts)
  from h regrid_phase_none(3)[OF _ r] have tb: "trace sb = trace s" by simp
  from after_regrid_log[OF 3 4 5 6 7 8] obtain es1 es2 where
    e: "trace s1 = trace sb @ es1 @ sweep_events (max_iters sb) @ es2"
      "list_all is_step_ev es1" "list_all is_step_ev es2"
    by blast
  have "filter (\<lambda>e. e = Ev_rebuild_mlsdc) (new_events s s1) = []"
    using e by (simp add: new_events_def tb rebuilds_step_evs rebuilds_sweeps)
  then show "Ev_rebuild_mlsdc \<notin> set (new_events s s1)"
    by (auto simp: filter_empty_conv)
next
  assume a: "timeStep P level time iteration niter stop_time s = Some s1"
  from timeStep_log[OF a] obtain js es1 es2 where
    t: "trace s1 = trace s
              @ (if lookup (sweepers s) 0 = Some None then [Ev_rebuild_mlsdc] else [])
              @ concat (map regrid_block js)
              @ es1 @ sweep_events (max_iters s) @ es2"
    and e: "list_all is_step_ev es1" "list_all is_step_ev es2"
    by blast
  from t have n: "new_events s s1 =
      (if lookup (sweepers s) 0 = Some None then [Ev_rebuild_mlsdc] else [])
              @ concat (map regrid_block js)
              @ es1 @ sweep_events (max_iters s) @ es2"
    by (simp add: new_events_def)
  show "length (filter (\<lambda>e. e = Ev_rebuild_mlsdc) (new_events s s1))
          = length (filter is_regrid (new_events s s1))
            + (if lookup (sweepers s) 0 = Some None then 1 else 0)"
    unfolding n using e
    by (simp add: rebuilds_blocks rebuilds_step_evs rebuilds_sweeps is_regrid_def)
next
  assume "run P cs s = Some s'"
  from run_stale[OF this] show "stale_free False (new_events s s')"
    by (auto simp: new_events_def)
qed


theorem regrid_triggers_rebuild_witness:
  "\<exists>s2 sr s3 sb sa sc s'.
     regrid P0 0 2 False s0 = Some s2 \<and> rebuilt_for P0 (amr s2) s2
     \<and> new_events s0 s2 = [Ev_Amr_regrid 0, Ev_rebuild_mlsdc]
     \<and> run P0 ([Step 0 0 1 1 10] @ [Regrid 0 2 False]) s0 = Some sr
     \<and> timeStep_begin P0 0 3 10 sr = Some s3 \<and> regrid_phase P0 0 3 10 sr = Some sb
     \<and> seeding P0 3 sb = Some s3 \<and> fresh P0 sb
     \<and> timeStep P1 0 0 1 1 10 s0 = Some sa \<and> regrid_phase P1 0 1 10 sa = Some sa
     \<and> timeStep P1 0 1 1 1 10 sa = Some sc \<and> Ev_rebuild_mlsdc \<notin> set (new_events sa sc)
     \<and> run P0 cs0 s0 = Some s' \<and> stale_free False (new_events s0 s')"
proof -
  have "map_option max_iters (run P0 cs0 s0) = Some 2" by code_simp
  then obtain s' where s': "run P0 cs0 s0 = Some s'"
    by (auto dest: some_of_map_option)
  have "map_option max_iters (regrid P0 0 2 False s0) = Some 2" by code_simp
  then obtain s2 where s2: "regrid P0 0 2 False s0 = Some s2"
    by (auto dest!: some_of_map_option)
  have "map_option (\<lambda>sr. map_option max_iters (timeStep_begin P0 0 3 10 sr))
          (run P0 ([Step 0 0 1 1 10] @ [Regrid 0 2 False]) s0) = Some (Some 2)"
    by code_simp
  then obtain sr s3 where sr: "run P0 ([Step 0 0 1 1 10] @ [Regrid 0 2 False]) s0 = Some sr"
    and s3: "timeStep_begin P0 0 3 10 sr = Some s3"
    by (auto dest!: some_of_map_option)
  have "map_option
      (\<lambda>sa. (map_option (map_option nnodes) (lookup (sweepers sa) 0),
             map_option max_iters (timeStep P1 0 1 1 1 10 sa)))
      (timeStep P1 0 0 1 1 10 s0) = Some (Some (Some 3), Some 2)"
    by code_simp
  then obtain sa sc sw where sa: "timeStep P1 0 0 1 1 10 s0 = Some sa"
    "lookup (sweepers sa) 0 = Some (Some sw)"
    "timeStep P1 0 1 1 1 10 sa = Some sc"
    by (auto dest!: some_of_map_option)
  have n: "no_regrid P1 0 sa" by (simp add: no_regrid_def P1_def)
  note i1 = regrid_triggers_rebuild[of P0 0 2 False s0 s2 cs0 s0 0 3 10 s3 1 1 s2 s']
  note i2 = regrid_triggers_rebuild[of P0 0 2 False sr s2 "[Step 0 0 1 1 10]" s0 0 3 10 s3 1 1 s2 s2]
  note i3 = regrid_triggers_rebuild[of P1 0 1 False sa sa "[]" sa 0 1 10 sa 1 1 sc sa]
  from i1 s2 have r: "rebuilt_for P0 (amr s2) s2"
    "new_events s0 s2 = [Ev_Amr_regrid 0, Ev_rebuild_mlsdc]" by blast+
  from i1 s' have st: "stale_free False (new_events s0 s')" by blast
  from i2 sr s3 obtain sb where
    sb: "regrid_phase P0 0 3 10 sr = Some sb" "seeding P0 3 sb = Some s3" "fresh P0 sb"
    by blast
  have nn: "lookup (sweepers sa) 0 \<noteq> Some None" using sa(2) by simp
  from i3 sa n nn have p1: "regrid_phase P1 0 1 10 sa = Some sa"
    "Ev_rebuild_mlsdc \<notin> set (new_events sa sc)"
    by blast+
  from s2 r sr s3 sb sa(1,3) p1 s' st show ?thesis by blast
qed

text \<open>
  A step of the small hierarchy whose regrid leaves the mesh as it was: the
  sweepers are in place, the finest level and the fields of the levels are the
  same before and after the regrid loop, and the loop has rebuilt the hierarchy:
  node 1 of level 0, which held what the last sweep wrote, is freshly allocated,
  and the log of the step holds a \<open>rebuild_mlsdc\<close>.
\<close>

theorem regrid_triggers_rebuild_counterexample:
  "map_option
     (\<lambda>sa. (map_option (map_option nnodes) (lookup (sweepers sa) 0),
            finest_level (amr sa),
            map (\<lambda>L. map (\<lambda>U. (nComp U, nGrow U, dat U 0 0, dat U 0 1)) (new_data L))
              (amr_level (amr sa)),
            map_option (\<lambda>U. (nComp U, nGrow U, dat U 0 0, dat U 0 1)) (get_Q sa 0 1),
            map_option
              (\<lambda>sb. (finest_level (amr sb),
                     map (\<lambda>L. map (\<lambda>U. (nComp U, nGrow U, dat U 0 0, dat U 0 1)) (new_data L))
                       (amr_level (amr sb)),
                     map_option (\<lambda>U. (nComp U, nGrow U, dat U 0 0, dat U 0 1)) (get_Q sb 0 1),
                     filter (\<lambda>e. e = Ev_rebuild_mlsdc) (new_events sa sb)))
              (regrid_phase P2 0 1 10 sa),
            map_option (\<lambda>sc. filter (\<lambda>e. e = Ev_rebuild_mlsdc) (new_events sa sc))
              (timeStep P2 0 1 1 1 10 sa)))
     (timeStep P2 0 0 1 1 10 s0)
   = Some (Some (Some 3), 0, [[(1, 1, 4, 4)], [(1, 1, 6, 6)]], Some (1, 1, 3, 3),
           Some (0, [[(1, 1, 4, 4)], [(1, 1, 6, 6)]], Some (1, 1, 0, 0), [Ev_rebuild_mlsdc]),
           Some [Ev_rebuild_mlsdc])"
  by code_simp

end
